theory Spec2Isabelle
  imports Main "HOL-Library.Word" "HOL-Library.Multiset"
begin

unbundle bit_operations_syntax

section \<open>Machine integers\<close>

text \<open>
  The simulator is C17 built for an LP64 target: \<^verbatim>\<open>int\<close> has 32 bits, \<^verbatim>\<open>unsigned long\<close>
  has 64. A C \<^verbatim>\<open>int\<close> is modelled as a HOL \<open>int\<close>; wherever the C arithmetic can leave the
  32-bit range the two's complement wrap-around of the machine is written out with
  \<open>int32\<close>. An address is a \<open>64 word\<close>.
\<close>

definition int32 :: "int \<Rightarrow> int" where
  "int32 x = (x + 2147483648) mod 4294967296 - 2147483648"

text \<open>C division and remainder truncate towards zero.\<close>

definition c_div :: "int \<Rightarrow> int \<Rightarrow> int" where
  "c_div a b = sgn a * sgn b * (\<bar>a\<bar> div \<bar>b\<bar>)"

definition c_mod :: "int \<Rightarrow> int \<Rightarrow> int" where
  "c_mod a b = a - b * c_div a b"

section \<open>Data model (cache.h)\<close>

record CacheStats =
  hits :: int
  misses :: int
  dirty_write_backs :: int

record CacheLine =
  tag :: int
  is_valid :: bool
  is_dirty :: bool
  lru_order :: int

record CacheSet =
  lines :: "CacheLine list"

record Cache =
  associativity :: int
  cache_size :: int
  line_size :: int
  miss_penalty :: int
  dirty_wb_penalty :: int
  num_sets :: int
  sets :: "CacheSet list"
  stats :: CacheStats
  log_line_size :: int
  log_num_sets :: int

record CacheOp =
  access_type :: char
  address :: "64 word"
  instructions :: int

text \<open>
  The two ways an access can leave the simulation: the \<^verbatim>\<open>exit(EXIT_FAILURE)\<close> of the
  range check in \<^verbatim>\<open>access_cache\<close>, and a read outside the allocated arrays, which C
  leaves undefined.
\<close>

datatype fault = Exit_Failure | Out_Of_Bounds

section \<open>Argument validation (main.c)\<close>

definition is_pow2 :: "int \<Rightarrow> bool" where
  "is_pow2 n = (n > 0 \<and> (n AND (n - 1)) = 0)"

definition validate_args :: "int \<Rightarrow> int \<Rightarrow> int \<Rightarrow> int \<Rightarrow> int \<Rightarrow> bool" where
  "validate_args assoc lsize csize miss_pen dirty_pen =
     (if assoc < 0 \<or> lsize \<le> 0 \<or> csize \<le> 0 \<or> miss_pen \<le> 0 \<or> dirty_pen \<le> 0 then False
      else if assoc \<noteq> 0 \<and> assoc \<noteq> 1 \<and> \<not> is_pow2 assoc then False
      else if \<not> is_pow2 lsize \<or> \<not> is_pow2 csize then False
      else if int32 (csize * 1024) < lsize then False
      else if c_mod (int32 (csize * 1024)) lsize \<noteq> 0 then False
      else if assoc > c_div (int32 (csize * 1024)) lsize then False
      else True)"

section \<open>Construction (cache.c)\<close>

text \<open>
  \<^verbatim>\<open>while (n >>= 1) log_value++;\<close> The shift of a signed \<^verbatim>\<open>int\<close> is arithmetic, so a
  negative \<open>n\<close> never reaches 0 and the loop does not end: the result is \<open>None\<close> there.
\<close>

partial_function (option) log2_loop :: "int \<Rightarrow> int \<Rightarrow> int option" where
  "log2_loop n log_value =
     (if n div 2 \<noteq> 0 then log2_loop (n div 2) (int32 (log_value + 1)) else Some log_value)"

declare log2_loop.simps [code]

definition log2 :: "int \<Rightarrow> int option" where
  "log2 n = log2_loop n 0"

text \<open>
  \<^verbatim>\<open>allocate_cache_memory\<close> gives every set an array of its own with \<open>associativity\<close>
  entries, and \<^verbatim>\<open>initialize_cache_lines\<close> writes every entry of every array; the nested
  list below is the result of both. \<^verbatim>\<open>malloc\<close> is taken to succeed for a size that is
  not negative.
\<close>

definition initialize_cache_lines :: "Cache \<Rightarrow> Cache" where
  "initialize_cache_lines cache =
     cache\<lparr>sets :=
       map (\<lambda>i. \<lparr>lines =
              map (\<lambda>j. \<lparr>tag = 0, is_valid = False, is_dirty = False, lru_order = int j\<rparr>)
                [0..<nat (associativity cache)]\<rparr>)
         [0..<nat (num_sets cache)]\<rparr>"

text \<open>
  The result is \<open>None\<close> when the call does not return a cache: the division by zero
  traps, \<^verbatim>\<open>log2\<close> never ends, or \<^verbatim>\<open>malloc\<close> is asked for a negative number of
  lines and the constructor exits.
\<close>

definition initialize_cache :: "int \<Rightarrow> int \<Rightarrow> int \<Rightarrow> int \<Rightarrow> int \<Rightarrow> Cache option" where
  "initialize_cache assoc csize lsize miss_pen dirty_pen =
     (let ways_and_sets =
            (if assoc = 0 then
               (if lsize = 0 then None
                else Some (c_div (int32 (csize * 1024)) lsize, 1))
             else if assoc = 1 then
               (if lsize = 0 then None
                else Some (1, c_div (int32 (csize * 1024)) lsize))
             else
               (if int32 (lsize * assoc) = 0 then None
                else Some (assoc, c_div (int32 (csize * 1024)) (int32 (lsize * assoc)))))
      in case ways_and_sets of
           None \<Rightarrow> None
         | Some (ways, nsets) \<Rightarrow>
             (case log2 lsize of
                None \<Rightarrow> None
              | Some ll \<Rightarrow>
                  (case log2 nsets of
                     None \<Rightarrow> None
                   | Some ls \<Rightarrow>
                       if 0 < nsets \<and> ways < 0 then None
                       else Some (initialize_cache_lines
                         \<lparr>associativity = ways, cache_size = csize, line_size = lsize,
                          miss_penalty = miss_pen, dirty_wb_penalty = dirty_pen,
                          num_sets = nsets, sets = [],
                          stats = \<lparr>hits = 0, misses = 0, dirty_write_backs = 0\<rparr>,
                          log_line_size = ll, log_num_sets = ls\<rparr>))))"

section \<open>Address extraction\<close>

text \<open>
  \<^verbatim>\<open>(address >> log_line_size) & ((1 << log_num_sets) - 1)\<close>: the mask is an \<^verbatim>\<open>int\<close>,
  converted to \<^verbatim>\<open>unsigned long\<close> for the conjunction, and the result is converted back
  to the \<^verbatim>\<open>int\<close> the function returns. A shift by a negative count or by the width
  of the type or more is undefined in C; \<^verbatim>\<open>log2\<close> of a 32-bit \<^verbatim>\<open>int\<close> is between 0 and 30,
  so no cache that \<^verbatim>\<open>initialize_cache\<close> builds has such a count.
\<close>

definition extract_set_index :: "64 word \<Rightarrow> Cache \<Rightarrow> int" where
  "extract_set_index addr cache =
     (if num_sets cache = 1 then 0
      else int32 (uint (drop_bit (nat (log_line_size cache)) addr
                        AND word_of_int (int32 (int32 (2 ^ nat (log_num_sets cache)) - 1)))))"

text \<open>The shifted address is an \<^verbatim>\<open>unsigned long\<close>; the function returns it as an \<^verbatim>\<open>int\<close>.\<close>

definition extract_tag_number :: "64 word \<Rightarrow> Cache \<Rightarrow> int" where
  "extract_tag_number addr cache =
     int32 (uint (drop_bit (nat (int32 (log_line_size cache + log_num_sets cache))) addr))"

section \<open>LRU handling\<close>

text \<open>
  Below, a set index and a line index are natural numbers: \<^verbatim>\<open>access_cache\<close> passes them
  on only after its checks. \<open>modify_line\<close> is a write through the pointer
  \<^verbatim>\<open>&cache->sets[set_index].lines[i]\<close>.
\<close>

definition modify_line :: "Cache \<Rightarrow> nat \<Rightarrow> nat \<Rightarrow> (CacheLine \<Rightarrow> CacheLine) \<Rightarrow> Cache" where
  "modify_line cache set_index i f =
     cache\<lparr>sets := (sets cache)[set_index :=
       (sets cache ! set_index)\<lparr>lines :=
          (lines (sets cache ! set_index))[i := f (lines (sets cache ! set_index) ! i)]\<rparr>]\<rparr>"

function update_lru_loop :: "int \<Rightarrow> int \<Rightarrow> nat \<Rightarrow> CacheLine list \<Rightarrow> CacheLine list" where
  "update_lru_loop assoc target_order i ls =
     (if int i < assoc
      then update_lru_loop assoc target_order (Suc i)
             (if lru_order (ls ! i) < target_order
              then ls[i := (ls ! i)\<lparr>lru_order := int32 (lru_order (ls ! i) + 1)\<rparr>]
              else ls)
      else ls)"
  by pat_completeness auto
termination
  by (relation "measure (\<lambda>(assoc, t, i, ls). nat (assoc - int i))") auto

declare update_lru_loop.simps [simp del]

definition update_lru_order :: "Cache \<Rightarrow> nat \<Rightarrow> nat \<Rightarrow> Cache" where
  "update_lru_order cache set_index line_index =
     (let ls = lines (sets cache ! set_index);
          target_order = lru_order (ls ! line_index);
          ls' = update_lru_loop (associativity cache) target_order 0 ls
      in cache\<lparr>sets := (sets cache)[set_index :=
           (sets cache ! set_index)\<lparr>lines :=
              ls'[line_index := (ls' ! line_index)\<lparr>lru_order := 0\<rparr>]\<rparr>]\<rparr>)"

function find_lru_loop :: "int \<Rightarrow> CacheLine list \<Rightarrow> nat \<Rightarrow> int \<Rightarrow> nat \<Rightarrow> nat" where
  "find_lru_loop assoc ls i max_order lru_index =
     (if int i < assoc then
        (if \<not> is_valid (ls ! i) then i
         else if lru_order (ls ! i) > max_order
              then find_lru_loop assoc ls (Suc i) (lru_order (ls ! i)) i
              else find_lru_loop assoc ls (Suc i) max_order lru_index)
      else lru_index)"
  by pat_completeness auto
termination
  by (relation "measure (\<lambda>(assoc, ls, i, m, l). nat (assoc - int i))") auto

declare find_lru_loop.simps [simp del]

definition find_lru_line_index :: "Cache \<Rightarrow> nat \<Rightarrow> nat" where
  "find_lru_line_index cache set_index =
     find_lru_loop (associativity cache) (lines (sets cache ! set_index)) 0 0 0"

section \<open>Access\<close>

function is_cache_hit_loop :: "Cache \<Rightarrow> CacheOp \<Rightarrow> nat \<Rightarrow> int \<Rightarrow> nat \<Rightarrow> bool \<times> Cache" where
  "is_cache_hit_loop cache cache_op set_index tg i =
     (if int i < associativity cache then
        (if is_valid (lines (sets cache ! set_index) ! i)
            \<and> tag (lines (sets cache ! set_index) ! i) = tg
         then
           let c1 = update_lru_order cache set_index i;
               c2 = (if access_type cache_op = CHR ''s''
                     then modify_line c1 set_index i (\<lambda>l. l\<lparr>is_dirty := True\<rparr>)
                     else c1)
           in (True, c2\<lparr>stats := (stats c2)\<lparr>hits := int32 (hits (stats c2) + 1)\<rparr>\<rparr>)
         else is_cache_hit_loop cache cache_op set_index tg (Suc i))
      else (False, cache))"
  by pat_completeness auto
termination
  by (relation "measure (\<lambda>(c, opn, s, t, i). nat (associativity c - int i))") auto

declare is_cache_hit_loop.simps [simp del]

definition is_cache_hit :: "Cache \<Rightarrow> CacheOp \<Rightarrow> nat \<Rightarrow> int \<Rightarrow> bool \<times> Cache" where
  "is_cache_hit cache cache_op set_index tg = is_cache_hit_loop cache cache_op set_index tg 0"

definition handle_cache_miss :: "Cache \<Rightarrow> CacheOp \<Rightarrow> nat \<Rightarrow> int \<Rightarrow> Cache" where
  "handle_cache_miss cache cache_op set_index tg =
     (let c1 = cache\<lparr>stats := (stats cache)\<lparr>misses := int32 (misses (stats cache) + 1)\<rparr>\<rparr>;
          lru_index = find_lru_line_index c1 set_index;
          c2 = (if is_dirty (lines (sets c1 ! set_index) ! lru_index)
                then c1\<lparr>stats := (stats c1)\<lparr>dirty_write_backs :=
                          int32 (dirty_write_backs (stats c1) + 1)\<rparr>\<rparr>
                else c1);
          c3 = modify_line c2 set_index lru_index
                 (\<lambda>l. l\<lparr>tag := tg, is_valid := True,
                         is_dirty := (access_type cache_op = CHR ''s'')\<rparr>)
      in update_lru_order c3 set_index lru_index)"

text \<open>
  \<^verbatim>\<open>access_cache\<close>. The range check of the source is \<^verbatim>\<open>set_index > cache->num_sets\<close>.
  After it the source reads \<^verbatim>\<open>cache->sets[set_index]\<close>. With a positive
  \<open>associativity\<close>, \<^verbatim>\<open>update_lru_order\<close> (reached on a hit and on a miss alike) reads
  every one of the \<open>associativity\<close> lines of that set. With an \<open>associativity\<close> that is not
  positive no scan runs, the access is a miss, \<^verbatim>\<open>find_lru_line_index\<close> returns 0 and
  \<^verbatim>\<open>handle_cache_miss\<close> and \<^verbatim>\<open>update_lru_order\<close> read and write \<^verbatim>\<open>lines[0]\<close>. Where one
  of these accesses is outside what was allocated the model stops with \<open>Out_Of_Bounds\<close>.
\<close>

definition access_cache :: "Cache \<Rightarrow> CacheOp \<Rightarrow> fault + (bool \<times> Cache)" where
  "access_cache cache cache_op =
     (let set_index = extract_set_index (address cache_op) cache in
      if set_index > num_sets cache then Inl Exit_Failure
      else if set_index < 0 \<or> int (length (sets cache)) \<le> set_index
              \<or> int (length (lines (sets cache ! nat set_index))) < associativity cache
              \<or> (associativity cache \<le> 0 \<and> lines (sets cache ! nat set_index) = [])
           then Inl Out_Of_Bounds
      else
        let tg = extract_tag_number (address cache_op) cache;
            r = is_cache_hit cache cache_op (nat set_index) tg
        in if fst r then Inr (True, snd r)
           else Inr (False, handle_cache_miss cache cache_op (nat set_index) tg))"

text \<open>
  Replaying a trace: one \<^verbatim>\<open>access_cache\<close> per record, in order, as \<^verbatim>\<open>simulate_cache\<close>
  does; the result is the list of outcomes (\<open>True\<close> for a hit) and the final cache.
\<close>

fun replay :: "Cache \<Rightarrow> CacheOp list \<Rightarrow> fault + (bool list \<times> Cache)" where
  "replay cache [] = Inr ([], cache)"
| "replay cache (cache_op # ops) =
     (case access_cache cache cache_op of
        Inl e \<Rightarrow> Inl e
      | Inr (h, cache') \<Rightarrow>
          (case replay cache' ops of
             Inl e \<Rightarrow> Inl e
           | Inr (hs, cache'') \<Rightarrow> Inr (h # hs, cache'')))"

section \<open>Auxiliary notions\<close>

text \<open>
  The geometry checks of \<^verbatim>\<open>validate_args\<close>. The two penalties, which
  \<^verbatim>\<open>validate_args\<close> only requires to be positive, are stored by the constructor and
  never read by the engine.
\<close>

definition valid_geometry :: "int \<Rightarrow> int \<Rightarrow> int \<Rightarrow> bool" where
  "valid_geometry assoc lsize csize = validate_args assoc lsize csize 1 1"

text \<open>Trace records as the reader hands them to the engine.\<close>

definition store_op :: "64 word \<Rightarrow> CacheOp" where
  "store_op a = \<lparr>access_type = CHR ''s'', address = a, instructions = 1\<rparr>"

definition load_op :: "64 word \<Rightarrow> CacheOp" where
  "load_op a = \<lparr>access_type = CHR ''l'', address = a, instructions = 1\<rparr>"

text \<open>
  Construction followed by the replay of a trace, as \<^verbatim>\<open>main\<close> runs them: the outcomes
  (\<open>True\<close> for a hit) and the final statistics, or \<open>None\<close> when the constructor does
  not return or an access stops with a fault.
\<close>

definition simulate ::
  "int \<Rightarrow> int \<Rightarrow> int \<Rightarrow> int \<Rightarrow> int \<Rightarrow> CacheOp list \<Rightarrow> (bool list \<times> CacheStats) option" where
  "simulate assoc csize lsize miss_pen dirty_pen ops =
     (case initialize_cache assoc csize lsize miss_pen dirty_pen of
        None \<Rightarrow> None
      | Some c \<Rightarrow>
          (case replay c ops of
             Inl e \<Rightarrow> None
           | Inr (hs, c') \<Rightarrow> Some (hs, stats c')))"

text \<open>
  \<open>frame c si c'\<close>: the cache \<open>c'\<close> differs from \<open>c\<close> at most in the set \<open>si\<close> and in
  the statistics.
\<close>

definition frame :: "Cache \<Rightarrow> nat \<Rightarrow> Cache \<Rightarrow> bool" where
  "frame c si c' =
     (associativity c' = associativity c \<and> cache_size c' = cache_size c
      \<and> line_size c' = line_size c \<and> miss_penalty c' = miss_penalty c
      \<and> dirty_wb_penalty c' = dirty_wb_penalty c \<and> num_sets c' = num_sets c
      \<and> log_line_size c' = log_line_size c \<and> log_num_sets c' = log_num_sets c
      \<and> length (sets c') = length (sets c)
      \<and> (\<forall>j. j \<noteq> si \<longrightarrow> sets c' ! j = sets c ! j))"

text \<open>
  Three small caches: the direct-mapped cache of two sets that
  \<^verbatim>\<open>initialize_cache(1, 1, 512, 30, 2)\<close> builds, and what it becomes after a store to
  \<open>0x200\<close> and after a second one.
\<close>

definition dm_cache :: "CacheLine \<Rightarrow> CacheStats \<Rightarrow> Cache" where
  "dm_cache l1 st =
     \<lparr>associativity = 1, cache_size = 1, line_size = 512, miss_penalty = 30,
      dirty_wb_penalty = 2, num_sets = 2,
      sets = [\<lparr>lines = [\<lparr>tag = 0, is_valid = False, is_dirty = False, lru_order = 0\<rparr>]\<rparr>,
              \<lparr>lines = [l1]\<rparr>],
      stats = st, log_line_size = 9, log_num_sets = 1\<rparr>"

definition dm_cache0 :: Cache where
  "dm_cache0 = dm_cache \<lparr>tag = 0, is_valid = False, is_dirty = False, lru_order = 0\<rparr>
                 \<lparr>hits = 0, misses = 0, dirty_write_backs = 0\<rparr>"

definition dm_cache1 :: Cache where
  "dm_cache1 = dm_cache \<lparr>tag = 0, is_valid = True, is_dirty = True, lru_order = 0\<rparr>
                 \<lparr>hits = 0, misses = 1, dirty_write_backs = 0\<rparr>"

definition dm_cache2 :: Cache where
  "dm_cache2 = dm_cache \<lparr>tag = 0, is_valid = True, is_dirty = True, lru_order = 0\<rparr>
                 \<lparr>hits = 1, misses = 1, dirty_write_backs = 0\<rparr>"

text \<open>
  The same two sets under a decoder that reads two index bits instead of one: a
  mismatch of geometry and decoder, which the range check of \<^verbatim>\<open>access_cache\<close> is
  there to catch.
\<close>

definition skewed_cache :: Cache where
  "skewed_cache = dm_cache0\<lparr>log_num_sets := 2\<rparr>"

text \<open>
  The engine of 32 bytes: two ways, one set, lines of 16 bytes. \<^verbatim>\<open>initialize_cache\<close>
  takes the size in kilobytes and cannot be asked for 32 bytes; this is the cache that
  its steps after the choice of ways and sets build for two ways, one set and lines of 16
  bytes: the logarithms \<^verbatim>\<open>log2(16)\<close> and \<^verbatim>\<open>log2(1)\<close>, statistics at zero, and the lines as
  \<^verbatim>\<open>initialize_cache_lines\<close> writes them. The \<open>cache_size\<close> field (kilobytes) and the
  penalties, which no access reads, are left open.
\<close>

definition engine_32_bytes :: "int \<Rightarrow> int \<Rightarrow> int \<Rightarrow> Cache" where
  "engine_32_bytes csize miss_pen dirty_pen =
     initialize_cache_lines
       \<lparr>associativity = 2, cache_size = csize, line_size = 16,
        miss_penalty = miss_pen, dirty_wb_penalty = dirty_pen,
        num_sets = 1, sets = [],
        stats = \<lparr>hits = 0, misses = 0, dirty_write_backs = 0\<rparr>,
        log_line_size = 4, log_num_sets = 0\<rparr>"

text \<open>
  The state \<^verbatim>\<open>is_cache_hit\<close> leaves behind when line \<open>i\<close> of the set is the hit: the body
  of the \<^verbatim>\<open>if\<close> in the scan.
\<close>

definition hit_update :: "Cache \<Rightarrow> CacheOp \<Rightarrow> nat \<Rightarrow> nat \<Rightarrow> Cache" where
  "hit_update c opn si i =
     (let c1 = update_lru_order c si i;
          c2 = (if access_type opn = CHR ''s''
                then modify_line c1 si i (\<lambda>l. l\<lparr>is_dirty := True\<rparr>)
                else c1)
      in c2\<lparr>stats := (stats c2)\<lparr>hits := int32 (hits (stats c2) + 1)\<rparr>\<rparr>)"

text \<open>
  The invariant of the lines of one set. The valid lines are the first \<open>k\<close>; their ranks
  are distinct and lie in \<open>0..k-1\<close>; a line that was never filled still has the rank it
  was given at construction, its index.
\<close>

definition lines_ok :: "CacheLine list \<Rightarrow> bool" where
  "lines_ok ls =
     (\<exists>k\<le>length ls.
        (\<forall>j<length ls. is_valid (ls ! j) = (j < k))
        \<and> (\<forall>j<length ls. k \<le> j \<longrightarrow> lru_order (ls ! j) = int j)
        \<and> (\<forall>j<k. 0 \<le> lru_order (ls ! j) \<and> lru_order (ls ! j) < int k)
        \<and> inj_on (\<lambda>j. lru_order (ls ! j)) {..<k})"

text \<open>
  \<open>touched li ls ls'\<close>: what an access that uses line \<open>li\<close> does to the valid bits and the
  ranks of a set.
\<close>

definition touched :: "nat \<Rightarrow> CacheLine list \<Rightarrow> CacheLine list \<Rightarrow> bool" where
  "touched li ls ls' =
     (length ls' = length ls
      \<and> (\<forall>j<length ls.
            is_valid (ls' ! j) = (is_valid (ls ! j) \<or> j = li)
            \<and> lru_order (ls' ! j) =
                (if j = li then 0
                 else if lru_order (ls ! j) < lru_order (ls ! li) then lru_order (ls ! j) + 1
                 else lru_order (ls ! j))))"

text \<open>The invariant of the cache: its geometry and the invariant of every set.\<close>

definition cache_ok :: "Cache \<Rightarrow> bool" where
  "cache_ok c =
     (0 < associativity c \<and> associativity c < 2147483648
      \<and> 0 \<le> log_line_size c \<and> 0 \<le> log_num_sets c
      \<and> log_line_size c + log_num_sets c \<le> 30
      \<and> num_sets c = 2 ^ nat (log_num_sets c)
      \<and> length (sets c) = nat (num_sets c)
      \<and> (\<forall>s\<in>set (sets c). length (lines s) = nat (associativity c) \<and> lines_ok (lines s)))"

text \<open>
  The history of a line, read from the trace. \<open>block_of c a\<close> is the memory block
  of the address \<open>a\<close>: the address without its offset bits, all 64 bits of it kept (the
  engine's tag, an \<^verbatim>\<open>int\<close>, keeps 32).
\<close>

definition block_of :: "Cache \<Rightarrow> 64 word \<Rightarrow> 64 word" where
  "block_of c a = drop_bit (nat (log_line_size c)) a"

text \<open>
  \<open>fills_line c cache_op si li\<close>: the access \<open>cache_op\<close> in the state \<open>c\<close> is a miss whose
  handler writes the line \<open>li\<close> of the set \<open>si\<close>; from then on the block of \<open>cache_op\<close> is
  the block resident in that line. \<open>state_before c0 ops m\<close> is the state in which the
  access \<open>m\<close> of the trace runs, and \<open>last_fill c0 ops si li\<close> the latest access of the
  trace that filled the line, if any.
\<close>

definition fills_line :: "Cache \<Rightarrow> CacheOp \<Rightarrow> nat \<Rightarrow> nat \<Rightarrow> bool" where
  "fills_line c cache_op si li =
     (case access_cache c cache_op of
        Inl e \<Rightarrow> False
      | Inr (h, c') \<Rightarrow>
          \<not> h \<and> si = nat (extract_set_index (address cache_op) c)
          \<and> li = find_lru_line_index c si)"

definition state_before :: "Cache \<Rightarrow> CacheOp list \<Rightarrow> nat \<Rightarrow> Cache" where
  "state_before c0 ops m = (case replay c0 (take m ops) of Inr (hs, c) \<Rightarrow> c | Inl e \<Rightarrow> c0)"

definition last_fill :: "Cache \<Rightarrow> CacheOp list \<Rightarrow> nat \<Rightarrow> nat \<Rightarrow> nat option" where
  "last_fill c0 ops si li =
     find (\<lambda>m. fills_line (state_before c0 ops m) (ops ! m) si li) (rev [0..<length ops])"

text \<open>
  \<open>stored_while_resident c0 ops si li\<close>: after the trace \<open>ops\<close>, the block resident in the
  line \<open>li\<close> of the set \<open>si\<close> was the target of a store while resident. The line was filled
  by the access \<open>m\<close>, and the access \<open>m\<close> itself or a later one is a store whose address
  lies in the block of the access \<open>m\<close>. Which accesses are stores to that block is read
  from the kinds and the addresses of the trace alone, by comparing blocks; whether the
  engine took such a store for a hit plays no part.
\<close>

definition stored_while_resident :: "Cache \<Rightarrow> CacheOp list \<Rightarrow> nat \<Rightarrow> nat \<Rightarrow> bool" where
  "stored_while_resident c0 ops si li =
     (case last_fill c0 ops si li of
        None \<Rightarrow> False
      | Some m \<Rightarrow>
          (\<exists>k\<in>set [m..<length ops].
              access_type (ops ! k) = CHR ''s''
              \<and> block_of c0 (address (ops ! k)) = block_of c0 (address (ops ! m))))"

text \<open>
  Two invariants of the replay. \<open>tags_distinct\<close>: no two valid lines of a set hold the
  same tag. \<open>history_ok c0 ops c\<close>: in the state \<open>c\<close> reached by the trace \<open>ops\<close>, a line is
  valid exactly when some access filled it, it holds the tag of the access that
  filled it last, in the set of that access, and its dirty bit is
  \<open>stored_while_resident\<close>.
\<close>

definition tags_distinct :: "Cache \<Rightarrow> bool" where
  "tags_distinct c =
     (\<forall>si<length (sets c). \<forall>li<nat (associativity c). \<forall>lj<nat (associativity c).
         is_valid (lines (sets c ! si) ! li) \<and> is_valid (lines (sets c ! si) ! lj)
         \<and> tag (lines (sets c ! si) ! li) = tag (lines (sets c ! si) ! lj)
         \<longrightarrow> li = lj)"

definition history_ok :: "Cache \<Rightarrow> CacheOp list \<Rightarrow> Cache \<Rightarrow> bool" where
  "history_ok c0 ops c =
     (\<forall>si<length (sets c). \<forall>li<nat (associativity c).
         (is_valid (lines (sets c ! si) ! li) = (last_fill c0 ops si li \<noteq> None))
         \<and> (\<forall>m. last_fill c0 ops si li = Some m \<longrightarrow>
                tag (lines (sets c ! si) ! li) = extract_tag_number (address (ops ! m)) c0
                \<and> extract_set_index (address (ops ! m)) c0 = int si)
         \<and> is_dirty (lines (sets c ! si) ! li) = stored_while_resident c0 ops si li)"

text \<open>
  The cache that \<^verbatim>\<open>initialize_cache(1, 1, 1024, 30, 2)\<close> builds: one kilobyte, one set,
  one line of 1024 bytes.
\<close>

definition one_line_cache :: Cache where
  "one_line_cache =
     initialize_cache_lines
       \<lparr>associativity = 1, cache_size = 1, line_size = 1024,
        miss_penalty = 30, dirty_wb_penalty = 2,
        num_sets = 1, sets = [],
        stats = \<lparr>hits = 0, misses = 0, dirty_write_backs = 0\<rparr>,
        log_line_size = 10, log_num_sets = 0\<rparr>"

section \<open>The update loop\<close>

lemma int32_id: "- 2147483648 \<le> x \<Longrightarrow> x < 2147483648 \<Longrightarrow> int32 x = x"
  by (simp add: int32_def)

lemma length_update_lru_loop [simp]: "length (update_lru_loop a t i ls) = length ls"
proof (induction a t i ls rule: update_lru_loop.induct)
  case (1 assoc target_order i ls)
  show ?case
    using 1 by (subst update_lru_loop.simps) simp
qed

lemma nth_update_lru_loop:
  "j < length ls \<Longrightarrow>
   update_lru_loop a t i ls ! j =
     (if i \<le> j \<and> int j < a \<and> lru_order (ls ! j) < t
      then (ls ! j)\<lparr>lru_order := int32 (lru_order (ls ! j) + 1)\<rparr> else ls ! j)"
proof (induction a t i ls rule: update_lru_loop.induct)
  case (1 assoc target_order i ls)
  show ?case
  proof (cases "int i < assoc")
    case False
    then show ?thesis by (subst update_lru_loop.simps) auto
  next
    case True
    let ?ls' = "(if lru_order (ls ! i) < target_order
              then ls[i := (ls ! i)\<lparr>lru_order := int32 (lru_order (ls ! i) + 1)\<rparr>]
              else ls)"
    have len: "j < length ?ls'" using 1(2) by simp
    have step: "update_lru_loop assoc target_order i ls
                = update_lru_loop assoc target_order (Suc i) ?ls'"
      using True by (subst update_lru_loop.simps) simp
    have nth': "?ls' ! j = (if j = i \<and> lru_order (ls ! i) < target_order
                 then (ls ! i)\<lparr>lru_order := int32 (lru_order (ls ! i) + 1)\<rparr> else ls ! j)"
      using 1(2) by (auto simp: nth_list_update)
    show ?thesis
      unfolding step using 1(1)[OF True len] nth' True
      by (auto simp: not_less_eq_eq)
  qed
qed

section \<open>Powers of two and validated arguments\<close>

lemma pow2_ex: "0 < n \<Longrightarrow> (n AND (n - 1)) = 0 \<Longrightarrow> \<exists>k. n = (2::int) ^ k"
proof (induction n rule: int_bit_induct)
  case zero
  then show ?case by simp
next
  case minus
  then show ?case by simp
next
  case (even k)
  have d: "(2 * k - 1) div 2 = k - 1" by linarith
  have "(2 * k) AND (2 * k - 1) = 2 * (k AND (k - 1))"
    by (subst and_int_rec) (simp add: d)
  moreover have "(2 * k) AND (2 * k - 1) = 0" using even.prems(2) by (simp add: mult.commute)
  ultimately have "k AND (k - 1) = 0" by simp
  moreover have "0 < k" using even.prems(1) by simp
  ultimately have "k AND (k - 1) = 0" "0 < k" by auto
  with even obtain m where "k = 2 ^ m" by blast
  then have "k * 2 = 2 ^ Suc m" by simp
  then show ?case by blast
next
  case (odd k)
  have "(1 + 2 * k) AND (1 + 2 * k - 1) = 2 * k"
    by (subst and_int_rec) (simp add: algebra_simps)
  moreover have "(1 + 2 * k) AND (1 + 2 * k - 1) = 0" using odd.prems(2) by (simp add: mult.commute add.commute)
  ultimately have "k = 0" by simp
  then have "1 + k * 2 = 2 ^ 0" by simp
  then show ?case by blast
qed

lemma is_pow2_ex: "is_pow2 n \<Longrightarrow> \<exists>k. n = 2 ^ k"
  unfolding is_pow2_def using pow2_ex by blast

lemma log2_loop_pow2:
  "0 \<le> v \<Longrightarrow> v + int k < 2147483648 \<Longrightarrow> log2_loop (2 ^ k) v = Some (v + int k)"
proof (induction k arbitrary: v)
  case 0
  show ?case by (subst log2_loop.simps) simp
next
  case (Suc k)
  have "int32 (v + 1) = v + 1" using Suc.prems by (intro int32_id) auto
  then show ?case
    using Suc.prems Suc.IH [of "v + 1"]
    by (subst log2_loop.simps) (simp add: algebra_simps)
qed

lemma log2_pow2: "k \<le> 30 \<Longrightarrow> log2 (2 ^ k) = Some (int k)"
  unfolding log2_def using log2_loop_pow2 [of 0 k] by simp

lemma int32_pow2_big: "31 \<le> k \<Longrightarrow> int32 (2 ^ k) \<le> 0"
proof -
  assume k: "31 \<le> k"
  show ?thesis
  proof (cases "k = 31")
    case True
    then show ?thesis by (simp add: int32_def)
  next
    case False
    with k obtain d where d: "k = 32 + d" using le_Suc_ex [of 32 k] by auto
    have "(2::int) ^ k = 4294967296 * 2 ^ d" unfolding d by (simp add: power_add)
    then show ?thesis by (simp add: int32_def)
  qed
qed

lemma c_div_nonneg: "0 \<le> a \<Longrightarrow> 0 < b \<Longrightarrow> c_div a b = a div b"
  by (cases "a = 0") (simp_all add: c_div_def)

lemma c_mod_nonneg: "0 \<le> a \<Longrightarrow> 0 < b \<Longrightarrow> c_mod a b = a mod b"
  by (simp add: c_mod_def c_div_nonneg minus_mult_div_eq_mod)

lemma validate_args_geometry:
  "validate_args assoc lsize csize miss_pen dirty_pen \<Longrightarrow> valid_geometry assoc lsize csize"
  by (auto simp: valid_geometry_def validate_args_def split: if_splits)

lemma valid_geometry_shape:
  assumes "valid_geometry assoc lsize csize"
  shows "\<exists>i j. csize = 2 ^ i \<and> lsize = 2 ^ j \<and> j \<le> i + 10 \<and> i \<le> 20
           \<and> (assoc = 0 \<or> (\<exists>m. assoc = 2 ^ m \<and> j + m \<le> i + 10))"
proof -
  from assms have p: "is_pow2 lsize" "is_pow2 csize"
    and a: "assoc = 0 \<or> assoc = 1 \<or> is_pow2 assoc"
    and ge: "lsize \<le> int32 (csize * 1024)"
    and le: "assoc \<le> c_div (int32 (csize * 1024)) lsize"
    and pos: "0 < lsize"
    by (auto simp: valid_geometry_def validate_args_def split: if_splits)
  from p obtain i j where i: "csize = 2 ^ i" and j: "lsize = 2 ^ j"
    using is_pow2_ex by blast
  have b: "csize * 1024 = 2 ^ (i + 10)" by (simp add: i power_add)
  have i20: "i \<le> 20"
  proof (rule ccontr)
    assume "\<not> i \<le> 20"
    then have "31 \<le> i + 10" by simp
    from int32_pow2_big [OF this] ge pos b show False by simp
  qed
  have "(2::int) ^ (i + 10) \<le> 2 ^ 30" using i20 by (intro power_increasing) auto
  then have "(2::int) ^ (i + 10) \<le> 1073741824" by simp
  moreover have "(0::int) \<le> 2 ^ (i + 10)" by simp
  ultimately have id: "int32 (csize * 1024) = 2 ^ (i + 10)"
    unfolding b by (intro int32_id) linarith+
  have ji: "j \<le> i + 10"
    using ge unfolding id j by (simp add: power_le_imp_le_exp)
  have dv: "c_div (int32 (csize * 1024)) lsize = 2 ^ (i + 10 - j)"
    unfolding id j using ji by (simp add: c_div_nonneg power_diff)
  have "assoc = 0 \<or> (\<exists>m. assoc = 2 ^ m \<and> j + m \<le> i + 10)"
  proof (cases "assoc = 0")
    case True then show ?thesis by simp
  next
    case False
    have "\<exists>m. assoc = 2 ^ m"
    proof (cases "assoc = 1")
      case True
      then have "assoc = 2 ^ 0" by simp
      then show ?thesis by blast
    next
      case False
      with \<open>assoc \<noteq> 0\<close> a show ?thesis using is_pow2_ex by blast
    qed
    then obtain m where m: "assoc = 2 ^ m" by blast
    have "(2::int) ^ m \<le> 2 ^ (i + 10 - j)" using le unfolding dv m .
    then have "m \<le> i + 10 - j" by (simp add: power_le_imp_le_exp)
    with ji m show ?thesis by (intro disjI2 exI [of _ m]) auto
  qed
  with i j ji i20 show ?thesis by blast
qed

section \<open>The constructed cache\<close>

lemma initialize_cache_valid:
  assumes "valid_geometry assoc lsize csize"
  shows "\<exists>c w s l. initialize_cache assoc csize lsize miss_pen dirty_pen = Some c
           \<and> associativity c = 2 ^ w \<and> num_sets c = 2 ^ s \<and> line_size c = 2 ^ l
           \<and> log_line_size c = int l \<and> log_num_sets c = int s \<and> w + s + l \<le> 30
           \<and> cache_size c * 1024 = 2 ^ (w + s + l) \<and> cache_size c = csize
           \<and> line_size c = lsize
           \<and> associativity c = (if assoc = 0 then (csize * 1024) div lsize else assoc)
           \<and> stats c = \<lparr>hits = 0, misses = 0, dirty_write_backs = 0\<rparr>
           \<and> sets c = map (\<lambda>i. \<lparr>lines =
                  map (\<lambda>j. \<lparr>tag = 0, is_valid = False, is_dirty = False, lru_order = int j\<rparr>)
                    [0..<2 ^ w]\<rparr>) [0..<2 ^ s]"
proof -
  from valid_geometry_shape [OF assms] obtain i j
    where i: "csize = 2 ^ i" and j: "lsize = 2 ^ j" and ji: "j \<le> i + 10" and i20: "i \<le> 20"
      and a: "assoc = 0 \<or> (\<exists>m. assoc = 2 ^ m \<and> j + m \<le> i + 10)"
    by blast
  have b: "csize * 1024 = 2 ^ (i + 10)" by (simp add: i power_add)
  have "(2::int) ^ (i + 10) \<le> 2 ^ 30" using i20 by (intro power_increasing) auto
  then have "(2::int) ^ (i + 10) \<le> 1073741824" by simp
  moreover have "(0::int) \<le> 2 ^ (i + 10)" by simp
  ultimately have id: "int32 (csize * 1024) = 2 ^ (i + 10)"
    unfolding b by (intro int32_id) linarith+
  have dv: "c_div (int32 (csize * 1024)) lsize = 2 ^ (i + 10 - j)"
    unfolding id j using ji by (simp add: c_div_nonneg power_diff)
  have lpos: "lsize \<noteq> 0" by (simp add: j)
  have ll: "log2 lsize = Some (int j)"
    unfolding j using ji i20 by (intro log2_pow2) simp
  have l1: "log2 1 = Some 0" using log2_pow2 [of 0] by simp
  have nat2: "\<And>k. nat (2 ^ k) = 2 ^ k"
    by (metis nat_int of_nat_numeral of_nat_power)
  define mk where "mk = (\<lambda>ways nsets ls. initialize_cache_lines
                    \<lparr>associativity = ways, cache_size = csize, line_size = lsize,
                     miss_penalty = miss_pen, dirty_wb_penalty = dirty_pen,
                     num_sets = nsets, sets = [],
                     stats = \<lparr>hits = 0, misses = 0, dirty_write_backs = 0\<rparr>,
                     log_line_size = int j, log_num_sets = ls\<rparr>)"
  have fin: "?thesis"
    if eq: "initialize_cache assoc csize lsize miss_pen dirty_pen = Some (mk (2 ^ w) (2 ^ s) (int s))"
      and sum: "w + s + j = i + 10"
      and ways: "(2::int) ^ w = (if assoc = 0 then (csize * 1024) div lsize else assoc)" for w s
  proof -
    have le30: "w + s + j \<le> 30" using sum i20 by simp
    have b': "csize * 1024 = 2 ^ (w + s + j)" unfolding sum by (rule b)
    show ?thesis
      unfolding eq
      apply (rule exI [of _ "mk (2 ^ w) (2 ^ s) (int s)"], rule exI [of _ w])
      apply (rule exI [of _ s], rule exI [of _ j])
      apply (simp add: mk_def initialize_cache_lines_def nat2 j le30 b' flip: ways)
      done
  qed
  show ?thesis
  proof (cases "assoc = 0")
    case True
    have "initialize_cache assoc csize lsize miss_pen dirty_pen
          = Some (mk (2 ^ (i + 10 - j)) (2 ^ 0) (int 0))"
      by (simp add: initialize_cache_def True lpos dv ll l1 Let_def mk_def)
    moreover have "(2::int) ^ (i + 10 - j) = (csize * 1024) div lsize"
      unfolding b j using ji by (simp add: power_diff)
    ultimately show ?thesis using ji True fin [of "i + 10 - j" 0] by simp
  next
    case False
    with a obtain m where m: "assoc = 2 ^ m" and jm: "j + m \<le> i + 10" by blast
    show ?thesis
    proof (cases "m = 0")
      case True
      then have a1: "assoc = 1" using m by simp
      have ln: "log2 (2 ^ (i + 10 - j)) = Some (int (i + 10 - j))"
        using i20 by (intro log2_pow2) simp
      have "initialize_cache assoc csize lsize miss_pen dirty_pen
            = Some (mk (2 ^ 0) (2 ^ (i + 10 - j)) (int (i + 10 - j)))"
        by (simp add: initialize_cache_def a1 lpos dv ll ln Let_def mk_def)
      then show ?thesis using ji a1 fin [of 0 "i + 10 - j"] by simp
    next
      case False
      then have "(2::int) ^ 1 \<le> 2 ^ m" by (intro power_increasing) auto
      then have a2: "assoc \<noteq> 0" "assoc \<noteq> 1" using m by auto
      have apos: "\<not> assoc < 0" by (simp add: m)
      have la: "lsize * assoc = 2 ^ (j + m)" by (simp add: j m power_add)
      have "(2::int) ^ (j + m) \<le> 2 ^ 30" using jm i20 by (intro power_increasing) auto
      then have "(2::int) ^ (j + m) \<le> 1073741824" by simp
      moreover have "(0::int) < 2 ^ (j + m)" by simp
      ultimately have ida: "int32 (lsize * assoc) = 2 ^ (j + m)"
        unfolding la by (intro int32_id) linarith+
      have dva: "c_div (int32 (csize * 1024)) (2 ^ (j + m)) = 2 ^ (i + 10 - (j + m))"
        unfolding id using jm by (simp add: c_div_nonneg power_diff)
      have ln: "log2 (2 ^ (i + 10 - (j + m))) = Some (int (i + 10 - (j + m)))"
        using i20 by (intro log2_pow2) simp
      have "initialize_cache assoc csize lsize miss_pen dirty_pen
            = Some (mk assoc (2 ^ (i + 10 - (j + m))) (int (i + 10 - (j + m))))"
        using a2 apos by (simp add: initialize_cache_def ida dva ll ln Let_def mk_def)
      then show ?thesis using jm a2 fin [of m "i + 10 - (j + m)"] unfolding m by simp
    qed
  qed
qed

section \<open>The victim scan\<close>

lemma find_lru_loop_invalid:
  "i \<le> j \<Longrightarrow> int j < a \<Longrightarrow> \<not> is_valid (ls ! j)
   \<Longrightarrow> (\<forall>j'. i \<le> j' \<and> j' < j \<longrightarrow> is_valid (ls ! j'))
   \<Longrightarrow> find_lru_loop a ls i m l = j"
proof (induction a ls i m l rule: find_lru_loop.induct)
  case (1 assoc ls i max_order lru_index)
  show ?case
  proof (cases "i = j")
    case True
    then show ?thesis using 1(4,5) by (subst find_lru_loop.simps) simp
  next
    case False
    then have ij: "i < j" "Suc i \<le> j" using 1(3) by auto
    then have v: "is_valid (ls ! i)" using 1(6) by auto
    have ia: "int i < assoc" using ij 1(4) by simp
    have r: "\<forall>j'. Suc i \<le> j' \<and> j' < j \<longrightarrow> is_valid (ls ! j')" using 1(6) by auto
    show ?thesis
      using 1(1) [OF ia _ _ ij(2) 1(4) 1(5) r] 1(2) [OF ia _ _ ij(2) 1(4) 1(5) r] v ia
      by (subst find_lru_loop.simps) auto
  qed
qed

lemma find_lru_loop_all_valid:
  "(\<forall>j. i \<le> j \<and> int j < a \<longrightarrow> is_valid (ls ! j)) \<Longrightarrow>
   (if \<forall>j. i \<le> j \<and> int j < a \<longrightarrow> lru_order (ls ! j) \<le> m
    then find_lru_loop a ls i m l = l
    else i \<le> find_lru_loop a ls i m l \<and> int (find_lru_loop a ls i m l) < a
         \<and> m < lru_order (ls ! find_lru_loop a ls i m l)
         \<and> (\<forall>j. i \<le> j \<and> int j < a
                \<longrightarrow> lru_order (ls ! j) \<le> lru_order (ls ! find_lru_loop a ls i m l))
         \<and> (\<forall>j. i \<le> j \<and> j < find_lru_loop a ls i m l
                \<longrightarrow> lru_order (ls ! j) < lru_order (ls ! find_lru_loop a ls i m l)))"
proof (induction a ls i m l rule: find_lru_loop.induct)
  case (1 assoc ls i max_order lru_index)
  show ?case
  proof (cases "int i < assoc")
    case False
    then have "find_lru_loop assoc ls i max_order lru_index = lru_index"
      by (subst find_lru_loop.simps) simp
    moreover have "\<forall>j. i \<le> j \<and> int j < assoc \<longrightarrow> lru_order (ls ! j) \<le> max_order"
      using False by auto
    ultimately show ?thesis by simp
  next
    case True
    then have v: "is_valid (ls ! i)" using 1(3) by auto
    have r: "\<forall>j. Suc i \<le> j \<and> int j < assoc \<longrightarrow> is_valid (ls ! j)" using 1(3) by auto
    have nv: "\<not> \<not> is_valid (ls ! i)" using v by simp
    have le_cases: "\<And>j. i \<le> j \<Longrightarrow> j = i \<or> Suc i \<le> j" by auto
    show ?thesis
    proof (cases "lru_order (ls ! i) > max_order")
      case gt: True
      let ?R = "find_lru_loop assoc ls (Suc i) (lru_order (ls ! i)) i"
      have step: "find_lru_loop assoc ls i max_order lru_index = ?R"
        using True v gt by (subst find_lru_loop.simps) simp
      note IH = 1(1) [OF True nv gt r]
      have ncond: "\<not> (\<forall>j. i \<le> j \<and> int j < assoc \<longrightarrow> lru_order (ls ! j) \<le> max_order)"
        using gt True by (auto intro!: exI [of _ i])
      show ?thesis
      proof (cases "\<forall>j. Suc i \<le> j \<and> int j < assoc \<longrightarrow> lru_order (ls ! j) \<le> lru_order (ls ! i)")
        case c: True
        then have R: "?R = i" using IH by simp
        have "\<forall>j. i \<le> j \<and> int j < assoc \<longrightarrow> lru_order (ls ! j) \<le> lru_order (ls ! i)"
          using c le_cases by blast
        then show ?thesis
          unfolding step R if_not_P [OF ncond] using True gt by simp
      next
        case c: False
        then have R: "Suc i \<le> ?R" "int ?R < assoc" "lru_order (ls ! i) < lru_order (ls ! ?R)"
           "\<forall>j. Suc i \<le> j \<and> int j < assoc \<longrightarrow> lru_order (ls ! j) \<le> lru_order (ls ! ?R)"
           "\<forall>j. Suc i \<le> j \<and> j < ?R \<longrightarrow> lru_order (ls ! j) < lru_order (ls ! ?R)"
          using IH by simp_all
        have a: "\<forall>j. i \<le> j \<and> int j < assoc \<longrightarrow> lru_order (ls ! j) \<le> lru_order (ls ! ?R)"
          using R(3,4) le_cases by (metis less_imp_le)
        have b: "\<forall>j. i \<le> j \<and> j < ?R \<longrightarrow> lru_order (ls ! j) < lru_order (ls ! ?R)"
          using R(3,5) le_cases by metis
        have m_lt: "max_order < lru_order (ls ! ?R)" using gt R(3) by linarith
        have i_le: "i \<le> ?R" using R(1) by simp
        show ?thesis
          unfolding step if_not_P [OF ncond] using a b i_le R(2) m_lt by blast
      qed
    next
      case ngt: False
      let ?R = "find_lru_loop assoc ls (Suc i) max_order lru_index"
      have step: "find_lru_loop assoc ls i max_order lru_index = ?R"
        using True v ngt by (subst find_lru_loop.simps) simp
      note IH = 1(2) [OF True nv ngt r]
      have cond: "(\<forall>j. i \<le> j \<and> int j < assoc \<longrightarrow> lru_order (ls ! j) \<le> max_order)
                  = (\<forall>j. Suc i \<le> j \<and> int j < assoc \<longrightarrow> lru_order (ls ! j) \<le> max_order)"
        using ngt le_cases by (metis Suc_leD not_less)
      show ?thesis
      proof (cases "\<forall>j. Suc i \<le> j \<and> int j < assoc \<longrightarrow> lru_order (ls ! j) \<le> max_order")
        case c: True
        then have "?R = lru_index" using IH by simp
        then show ?thesis unfolding step cond if_P [OF c] .
      next
        case c: False
        then have R: "Suc i \<le> ?R" "int ?R < assoc" "max_order < lru_order (ls ! ?R)"
           "\<forall>j. Suc i \<le> j \<and> int j < assoc \<longrightarrow> lru_order (ls ! j) \<le> lru_order (ls ! ?R)"
           "\<forall>j. Suc i \<le> j \<and> j < ?R \<longrightarrow> lru_order (ls ! j) < lru_order (ls ! ?R)"
          using IH by simp_all
        have i_lt: "lru_order (ls ! i) < lru_order (ls ! ?R)" using ngt R(3) by simp
        have a: "\<forall>j. i \<le> j \<and> int j < assoc \<longrightarrow> lru_order (ls ! j) \<le> lru_order (ls ! ?R)"
          using i_lt R(4) le_cases by (metis less_imp_le)
        have b: "\<forall>j. i \<le> j \<and> j < ?R \<longrightarrow> lru_order (ls ! j) < lru_order (ls ! ?R)"
          using i_lt R(5) le_cases by metis
        have i_le: "i \<le> ?R" using R(1) by simp
        show ?thesis
          unfolding step cond if_not_P [OF c] using a b i_le R(2,3) by blast
      qed
    qed
  qed
qed

section \<open>The rank invariant of a set\<close>

lemma lines_ok_rank_range:
  assumes "lines_ok ls" "j < length ls"
  shows "0 \<le> lru_order (ls ! j) \<and> lru_order (ls ! j) < int (length ls)"
proof -
  from assms(1) obtain k where k: "k \<le> length ls"
    and B: "\<forall>j<length ls. k \<le> j \<longrightarrow> lru_order (ls ! j) = int j"
    and C: "\<forall>j<k. 0 \<le> lru_order (ls ! j) \<and> lru_order (ls ! j) < int k"
    unfolding lines_ok_def by blast
  show ?thesis
  proof (cases "j < k")
    case True
    with C k show ?thesis by fastforce
  next
    case False
    with B assms(2) show ?thesis by simp
  qed
qed

lemma lines_ok_touched:
  assumes ok: "lines_ok ls" and li: "li < length ls"
    and first: "is_valid (ls ! li) \<or> (\<forall>j<li. is_valid (ls ! j))"
    and t: "touched li ls ls'"
  shows "lines_ok ls'"
proof -
  let ?n = "length ls"
  let ?rk = "\<lambda>j. lru_order (ls ! j)"
  let ?rk' = "\<lambda>j. lru_order (ls' ! j)"
  from ok obtain k where k: "k \<le> ?n"
    and A: "\<forall>j<?n. is_valid (ls ! j) = (j < k)"
    and B: "\<forall>j<?n. k \<le> j \<longrightarrow> ?rk j = int j"
    and C: "\<forall>j<k. 0 \<le> ?rk j \<and> ?rk j < int k"
    and D: "inj_on ?rk {..<k}"
    unfolding lines_ok_def by blast
  from t have len: "length ls' = ?n"
    and V: "\<forall>j<?n. is_valid (ls' ! j) = (is_valid (ls ! j) \<or> j = li)"
    and R: "\<forall>j<?n. ?rk' j = (if j = li then 0
                 else if ?rk j < ?rk li then ?rk j + 1 else ?rk j)"
    unfolding touched_def by auto
  define k' where "k' = (if li < k then k else Suc k)"
  let ?r = "?rk li"
  have li_le: "li \<le> k"
  proof (rule ccontr)
    assume "\<not> li \<le> k"
    then have "k < li" by simp
    moreover have "\<not> is_valid (ls ! li)" using A li \<open>k < li\<close> by simp
    ultimately have "is_valid (ls ! k)" using first by blast
    then show False using A li \<open>k < li\<close> by simp
  qed
  have li_k': "li < k'" using li_le by (simp add: k'_def)
  have k'_le: "k' \<le> ?n" using k li li_le by (simp add: k'_def)
  have kk': "k \<le> k'" by (simp add: k'_def)
  have k'_cases: "\<And>j. j < k' \<Longrightarrow> j < k \<or> (j = li \<and> li = k)"
    using li_le by (auto simp: k'_def split: if_splits)
  have C': "\<And>j. j < k' \<Longrightarrow> 0 \<le> ?rk j \<and> ?rk j < int k'"
  proof -
    fix j assume "j < k'"
    from k'_cases [OF this] show "0 \<le> ?rk j \<and> ?rk j < int k'"
    proof
      assume "j < k" with C kk' show ?thesis by fastforce
    next
      assume "j = li \<and> li = k"
      with B li show ?thesis by (simp add: k'_def)
    qed
  qed
  have D': "inj_on ?rk {..<k'}"
  proof (cases "li < k")
    case True then show ?thesis using D by (simp add: k'_def)
  next
    case False
    then have lk: "li = k" using li_le by simp
    have "?rk k = int k" using B li lk by simp
    then have "?rk k \<notin> ?rk ` {..<k}" using C by fastforce
    then have "inj_on ?rk (insert k {..<k})" using D by (simp add: inj_on_insert)
    moreover have "insert k {..<k} = {..<Suc k}" by auto
    ultimately show ?thesis using False by (simp add: k'_def)
  qed
  have r_rng: "0 \<le> ?r" "?r < int k'" using C' [OF li_k'] by auto
  have ne: "\<And>j. j < k' \<Longrightarrow> j \<noteq> li \<Longrightarrow> ?rk j \<noteq> ?r"
    using D' li_k' by (auto simp: inj_on_def)
  have A_new: "\<forall>j<length ls'. is_valid (ls' ! j) = (j < k')"
  proof (intro allI impI)
    fix j assume "j < length ls'"
    then have j: "j < ?n" using len by simp
    show "is_valid (ls' ! j) = (j < k')"
      using V A j li_le by (auto simp: k'_def)
  qed
  have B_new: "\<forall>j<length ls'. k' \<le> j \<longrightarrow> ?rk' j = int j"
  proof (intro allI impI)
    fix j assume "j < length ls'" and kj: "k' \<le> j"
    then have j: "j < ?n" using len by simp
    have jli: "j \<noteq> li" using kj li_k' by simp
    have "?rk j = int j" using B j kj kk' by simp
    moreover have "?r < int j" using r_rng kj by simp
    ultimately show "?rk' j = int j" using R j jli by simp
  qed
  have C_new: "\<forall>j<k'. 0 \<le> ?rk' j \<and> ?rk' j < int k'"
  proof (intro allI impI)
    fix j assume jk: "j < k'"
    then have j: "j < ?n" using k'_le by simp
    show "0 \<le> ?rk' j \<and> ?rk' j < int k'"
      using R j C' [OF jk] r_rng jk by auto
  qed
  have D_new: "inj_on ?rk' {..<k'}"
  proof (rule inj_onI)
    fix x y assume x: "x \<in> {..<k'}" and y: "y \<in> {..<k'}" and eq: "?rk' x = ?rk' y"
    have xn: "x < ?n" and yn: "y < ?n" using x y k'_le by auto
    have xk: "x < k'" and yk: "y < k'" using x y by auto
    have "?rk x = ?rk y"
      using eq R xn yn C' [OF xk] C' [OF yk] ne [OF xk] ne [OF yk] r_rng
      by (auto split: if_splits)
    then show "x = y" using D' x y by (auto simp: inj_on_def)
  qed
  show ?thesis
    unfolding lines_ok_def
    using k'_le A_new B_new C_new D_new len by (intro exI [of _ k']) simp
qed

section \<open>The hit scan and the writes of an access\<close>

lemma is_cache_hit_loop_none:
  "(\<forall>j. i \<le> j \<and> int j < associativity c
        \<longrightarrow> \<not> (is_valid (lines (sets c ! si) ! j) \<and> tag (lines (sets c ! si) ! j) = t))
   \<Longrightarrow> is_cache_hit_loop c opn si t i = (False, c)"
proof (induction c opn si t i rule: is_cache_hit_loop.induct)
  case (1 cache cache_op set_index tg i)
  show ?case
  proof (cases "int i < associativity cache")
    case False
    then show ?thesis by (subst is_cache_hit_loop.simps) simp
  next
    case True
    then have nm: "\<not> (is_valid (lines (sets cache ! set_index) ! i)
                  \<and> tag (lines (sets cache ! set_index) ! i) = tg)"
      using 1(2) by auto
    have r: "\<forall>j. Suc i \<le> j \<and> int j < associativity cache
        \<longrightarrow> \<not> (is_valid (lines (sets cache ! set_index) ! j) \<and> tag (lines (sets cache ! set_index) ! j) = tg)"
      using 1(2) by auto
    show ?thesis
      using 1(1) [OF True nm r] True nm by (subst is_cache_hit_loop.simps) auto
  qed
qed

lemma is_cache_hit_loop_first:
  "i \<le> j \<Longrightarrow> int j < associativity c
   \<Longrightarrow> is_valid (lines (sets c ! si) ! j) \<and> tag (lines (sets c ! si) ! j) = t
   \<Longrightarrow> (\<forall>j'. i \<le> j' \<and> j' < j
        \<longrightarrow> \<not> (is_valid (lines (sets c ! si) ! j') \<and> tag (lines (sets c ! si) ! j') = t))
   \<Longrightarrow> is_cache_hit_loop c opn si t i = (True, hit_update c opn si j)"
proof (induction c opn si t i rule: is_cache_hit_loop.induct)
  case (1 cache cache_op set_index tg i)
  show ?case
  proof (cases "i = j")
    case True
    then show ?thesis
      using 1(3,4) by (subst is_cache_hit_loop.simps) (simp add: hit_update_def Let_def)
  next
    case False
    then have ij: "i < j" "Suc i \<le> j" using 1(2) by auto
    have ia: "int i < associativity cache" using ij 1(3) by simp
    have nm: "\<not> (is_valid (lines (sets cache ! set_index) ! i)
                  \<and> tag (lines (sets cache ! set_index) ! i) = tg)"
      using 1(5) ij by auto
    have r: "\<forall>j'. Suc i \<le> j' \<and> j' < j
        \<longrightarrow> \<not> (is_valid (lines (sets cache ! set_index) ! j') \<and> tag (lines (sets cache ! set_index) ! j') = tg)"
      using 1(5) by auto
    show ?thesis
      using 1(1) [OF ia nm ij(2) 1(3) 1(4) r] ia nm by (subst is_cache_hit_loop.simps) auto
  qed
qed

lemma is_cache_hit_cases:
  obtains (miss) "\<forall>j. int j < associativity c
        \<longrightarrow> \<not> (is_valid (lines (sets c ! si) ! j) \<and> tag (lines (sets c ! si) ! j) = t)"
      "is_cache_hit c opn si t = (False, c)"
  | (hit) j where "int j < associativity c"
      "is_valid (lines (sets c ! si) ! j)" "tag (lines (sets c ! si) ! j) = t"
      "\<forall>j'<j. \<not> (is_valid (lines (sets c ! si) ! j') \<and> tag (lines (sets c ! si) ! j') = t)"
      "is_cache_hit c opn si t = (True, hit_update c opn si j)"
proof -
  let ?M = "\<lambda>j. int j < associativity c \<and> is_valid (lines (sets c ! si) ! j) \<and> tag (lines (sets c ! si) ! j) = t"
  show ?thesis
  proof (cases "\<exists>j. ?M j")
    case False
    then have "is_cache_hit c opn si t = (False, c)"
      unfolding is_cache_hit_def by (intro is_cache_hit_loop_none) auto
    with False show ?thesis by (intro miss) auto
  next
    case True
    define j where "j = (LEAST j. ?M j)"
    have Mj: "?M j" unfolding j_def using True by (rule LeastI_ex)
    have least: "\<And>j'. j' < j \<Longrightarrow> \<not> ?M j'" unfolding j_def by (rule not_less_Least)
    have lt: "\<And>j'. j' < j \<Longrightarrow> int j' < associativity c" using Mj by auto
    have first: "\<forall>j'<j. \<not> (is_valid (lines (sets c ! si) ! j') \<and> tag (lines (sets c ! si) ! j') = t)"
      using least lt by blast
    have "is_cache_hit c opn si t = (True, hit_update c opn si j)"
      unfolding is_cache_hit_def using Mj first by (intro is_cache_hit_loop_first) auto
    with Mj first show ?thesis by (intro hit [of j]) auto
  qed
qed

lemma update_lru_order_fields [simp]:
  "associativity (update_lru_order c si li) = associativity c"
  "num_sets (update_lru_order c si li) = num_sets c"
  "log_line_size (update_lru_order c si li) = log_line_size c"
  "log_num_sets (update_lru_order c si li) = log_num_sets c"
  "stats (update_lru_order c si li) = stats c"
  "length (sets (update_lru_order c si li)) = length (sets c)"
  "j \<noteq> si \<Longrightarrow> sets (update_lru_order c si li) ! j = sets c ! j"
  by (simp_all add: update_lru_order_def Let_def)

lemma modify_line_fields [simp]:
  "associativity (modify_line c si li f) = associativity c"
  "num_sets (modify_line c si li f) = num_sets c"
  "log_line_size (modify_line c si li f) = log_line_size c"
  "log_num_sets (modify_line c si li f) = log_num_sets c"
  "stats (modify_line c si li f) = stats c"
  "length (sets (modify_line c si li f)) = length (sets c)"
  "j \<noteq> si \<Longrightarrow> sets (modify_line c si li f) ! j = sets c ! j"
  by (simp_all add: modify_line_def)

lemma lines_modify_line:
  "si < length (sets c) \<Longrightarrow>
   lines (sets (modify_line c si li f) ! si)
   = (lines (sets c ! si))[li := f (lines (sets c ! si) ! li)]"
  by (simp add: modify_line_def)

lemma lines_update_lru_order:
  "si < length (sets c) \<Longrightarrow>
   lines (sets (update_lru_order c si li) ! si)
   = (update_lru_loop (associativity c) (lru_order (lines (sets c ! si) ! li)) 0
        (lines (sets c ! si)))
     [li := (update_lru_loop (associativity c) (lru_order (lines (sets c ! si) ! li)) 0
        (lines (sets c ! si)) ! li)\<lparr>lru_order := 0\<rparr>]"
  by (simp add: update_lru_order_def Let_def)

lemma nth_lines_update_lru_order:
  assumes "si < length (sets c)" "j < length (lines (sets c ! si))"
  shows "lines (sets (update_lru_order c si li) ! si) ! j
         = (lines (sets c ! si) ! j)\<lparr>lru_order :=
              (if j = li then 0
               else if int j < associativity c
                       \<and> lru_order (lines (sets c ! si) ! j) < lru_order (lines (sets c ! si) ! li)
                    then int32 (lru_order (lines (sets c ! si) ! j) + 1)
                    else lru_order (lines (sets c ! si) ! j))\<rparr>"
  using assms
  by (simp add: lines_update_lru_order nth_list_update nth_update_lru_loop)

lemma length_lines_update_lru_order [simp]:
  "si < length (sets c) \<Longrightarrow>
   length (lines (sets (update_lru_order c si li) ! si)) = length (lines (sets c ! si))"
  by (simp add: lines_update_lru_order)

lemma length_lines_modify_line [simp]:
  "si < length (sets c) \<Longrightarrow>
   length (lines (sets (modify_line c si li f) ! si)) = length (lines (sets c ! si))"
  by (simp add: lines_modify_line)

lemma victim_spec:
  assumes a: "0 < a" and nn: "\<forall>j. int j < a \<longrightarrow> 0 \<le> lru_order (ls ! j)"
  shows "int (find_lru_loop a ls 0 0 0) < a
     \<and> ((\<exists>j. int j < a \<and> \<not> is_valid (ls ! j))
          \<longrightarrow> \<not> is_valid (ls ! find_lru_loop a ls 0 0 0)
              \<and> (\<forall>j<find_lru_loop a ls 0 0 0. is_valid (ls ! j)))
     \<and> ((\<forall>j. int j < a \<longrightarrow> is_valid (ls ! j))
          \<longrightarrow> (\<forall>j. int j < a \<longrightarrow> lru_order (ls ! j) \<le> lru_order (ls ! find_lru_loop a ls 0 0 0))
              \<and> (\<forall>j<find_lru_loop a ls 0 0 0.
                     lru_order (ls ! j) < lru_order (ls ! find_lru_loop a ls 0 0 0)))"
proof (cases "\<exists>j. int j < a \<and> \<not> is_valid (ls ! j)")
  case True
  let ?M = "\<lambda>j. int j < a \<and> \<not> is_valid (ls ! j)"
  define j where "j = (LEAST j. ?M j)"
  have Mj: "?M j" unfolding j_def using True by (rule LeastI_ex)
  have least: "\<And>j'. j' < j \<Longrightarrow> \<not> ?M j'" unfolding j_def by (rule not_less_Least)
  have first: "\<forall>j'. 0 \<le> j' \<and> j' < j \<longrightarrow> is_valid (ls ! j')"
    using least Mj by fastforce
  have "find_lru_loop a ls 0 0 0 = j"
    using Mj first by (intro find_lru_loop_invalid) auto
  then show ?thesis using Mj first True by auto
next
  case False
  then have av: "\<forall>j. 0 \<le> j \<and> int j < a \<longrightarrow> is_valid (ls ! j)" by auto
  let ?v = "find_lru_loop a ls 0 0 0"
  note spec = find_lru_loop_all_valid [OF av, of 0 0]
  show ?thesis
  proof (cases "\<forall>j. 0 \<le> j \<and> int j < a \<longrightarrow> lru_order (ls ! j) \<le> 0")
    case c: True
    then have v0: "?v = 0" using spec by simp
    have "\<forall>j. int j < a \<longrightarrow> lru_order (ls ! j) = 0" using c nn by fastforce
    then show ?thesis using v0 a False by simp
  next
    case c: False
    then show ?thesis using spec False by auto
  qed
qed

lemma find_lru_line_index_stats [simp]:
  "find_lru_line_index (c\<lparr>stats := st\<rparr>) si = find_lru_line_index c si"
  by (simp add: find_lru_line_index_def)

lemma hit_update_fields [simp]:
  "associativity (hit_update c opn si li) = associativity c"
  "num_sets (hit_update c opn si li) = num_sets c"
  "log_line_size (hit_update c opn si li) = log_line_size c"
  "log_num_sets (hit_update c opn si li) = log_num_sets c"
  "length (sets (hit_update c opn si li)) = length (sets c)"
  "j \<noteq> si \<Longrightarrow> sets (hit_update c opn si li) ! j = sets c ! j"
  "stats (hit_update c opn si li) = (stats c)\<lparr>hits := int32 (hits (stats c) + 1)\<rparr>"
  by (simp_all add: hit_update_def Let_def)

lemma handle_cache_miss_fields [simp]:
  "associativity (handle_cache_miss c opn si t) = associativity c"
  "num_sets (handle_cache_miss c opn si t) = num_sets c"
  "log_line_size (handle_cache_miss c opn si t) = log_line_size c"
  "log_num_sets (handle_cache_miss c opn si t) = log_num_sets c"
  "length (sets (handle_cache_miss c opn si t)) = length (sets c)"
  "j \<noteq> si \<Longrightarrow> sets (handle_cache_miss c opn si t) ! j = sets c ! j"
  "stats (handle_cache_miss c opn si t)
   = (stats c)\<lparr>misses := int32 (misses (stats c) + 1),
               dirty_write_backs :=
                 (if is_dirty (lines (sets c ! si) ! find_lru_line_index c si)
                  then int32 (dirty_write_backs (stats c) + 1)
                  else dirty_write_backs (stats c))\<rparr>"
  by (simp_all add: handle_cache_miss_def Let_def)

lemma length_lines_hit_update [simp]:
  "si < length (sets c) \<Longrightarrow>
   length (lines (sets (hit_update c opn si li) ! si)) = length (lines (sets c ! si))"
  by (simp add: hit_update_def Let_def)

lemma length_lines_handle_cache_miss [simp]:
  "si < length (sets c) \<Longrightarrow>
   length (lines (sets (handle_cache_miss c opn si t) ! si)) = length (lines (sets c ! si))"
  by (simp add: handle_cache_miss_def Let_def)

lemma nth_lines_hit_update:
  assumes "si < length (sets c)" "j < length (lines (sets c ! si))"
  shows "lines (sets (hit_update c opn si li) ! si) ! j
         = (lines (sets c ! si) ! j)
             \<lparr>is_dirty := (is_dirty (lines (sets c ! si) ! j)
                          \<or> (j = li \<and> access_type opn = CHR ''s'')),
              lru_order :=
              (if j = li then 0
               else if int j < associativity c
                       \<and> lru_order (lines (sets c ! si) ! j) < lru_order (lines (sets c ! si) ! li)
                    then int32 (lru_order (lines (sets c ! si) ! j) + 1)
                    else lru_order (lines (sets c ! si) ! j))\<rparr>"
  using assms
  by (simp add: hit_update_def Let_def lines_modify_line nth_list_update
                nth_lines_update_lru_order)

lemma nth_lines_handle_cache_miss:
  assumes "si < length (sets c)" "j < length (lines (sets c ! si))"
    and "find_lru_line_index c si < length (lines (sets c ! si))"
  shows "lines (sets (handle_cache_miss c opn si t) ! si) ! j
         = (if j = find_lru_line_index c si
            then (lines (sets c ! si) ! j)
                   \<lparr>tag := t, is_valid := True, is_dirty := (access_type opn = CHR ''s''),
                    lru_order := 0\<rparr>
            else (lines (sets c ! si) ! j)
                   \<lparr>lru_order :=
                      (if int j < associativity c
                          \<and> lru_order (lines (sets c ! si) ! j)
                            < lru_order (lines (sets c ! si) ! find_lru_line_index c si)
                       then int32 (lru_order (lines (sets c ! si) ! j) + 1)
                       else lru_order (lines (sets c ! si) ! j))\<rparr>)"
  using assms
  by (simp add: handle_cache_miss_def Let_def lines_modify_line nth_list_update
                nth_lines_update_lru_order)

section \<open>The cache invariant\<close>

lemma int32_pow2_small: "n \<le> 30 \<Longrightarrow> int32 (2 ^ n) = 2 ^ n"
proof -
  assume "n \<le> 30"
  then have "(2::int) ^ n \<le> 2 ^ 30" by (intro power_increasing) auto
  then have "(2::int) ^ n \<le> 1073741824" by simp
  moreover have "(0::int) < 2 ^ n" by simp
  ultimately show ?thesis by (intro int32_id) linarith+
qed

lemma int32_pow2_minus1: "n \<le> 30 \<Longrightarrow> int32 (2 ^ n - 1) = 2 ^ n - 1"
proof -
  assume "n \<le> 30"
  then have "(2::int) ^ n \<le> 2 ^ 30" by (intro power_increasing) auto
  then have "(2::int) ^ n \<le> 1073741824" by simp
  moreover have "(0::int) < 2 ^ n" by simp
  ultimately show ?thesis by (intro int32_id) linarith+
qed

lemma set_index_mask:
  assumes "n \<le> 30"
  shows "int32 (uint ((w :: 64 word) AND word_of_int (int32 (int32 (2 ^ n) - 1))))
         = uint (w AND word_of_int (2 ^ n - 1))"
    and "0 \<le> uint (w AND word_of_int (2 ^ n - 1))"
    and "uint (w AND word_of_int (2 ^ n - 1)) < 2 ^ n"
proof -
  have m: "(word_of_int (2 ^ n - 1) :: 64 word) = mask n"
    by (simp add: mask_eq_exp_minus_1)
  have u: "uint (w AND mask n) = take_bit n (uint w)"
    by (simp add: unsigned_take_bit_eq flip: take_bit_eq_mask)
  show nonneg: "0 \<le> uint (w AND word_of_int (2 ^ n - 1))" by simp
  show lt: "uint (w AND word_of_int (2 ^ n - 1)) < 2 ^ n"
    unfolding m u by (rule take_bit_int_less_exp)
  have "(2::int) ^ n \<le> 2 ^ 30" using assms by (intro power_increasing) auto
  then have "(2::int) ^ n \<le> 1073741824" by simp
  with lt have "uint (w AND word_of_int (2 ^ n - 1)) < 2147483648" by linarith
  with nonneg have "int32 (uint (w AND word_of_int (2 ^ n - 1))) = uint (w AND word_of_int (2 ^ n - 1))"
    by (intro int32_id) linarith+
  then show "int32 (uint (w AND word_of_int (int32 (int32 (2 ^ n) - 1))))
         = uint (w AND word_of_int (2 ^ n - 1))"
    using assms by (simp add: int32_pow2_small int32_pow2_minus1)
qed

lemma extract_set_index_range:
  assumes "cache_ok c"
  shows "0 \<le> extract_set_index a c \<and> extract_set_index a c < num_sets c"
proof -
  let ?n = "nat (log_num_sets c)"
  have n30: "?n \<le> 30" using assms by (auto simp: cache_ok_def)
  have ns: "num_sets c = 2 ^ ?n" using assms by (simp add: cache_ok_def)
  show ?thesis
  proof (cases "num_sets c = 1")
    case True
    then show ?thesis by (simp add: extract_set_index_def)
  next
    case False
    then show ?thesis
      using set_index_mask [OF n30, of "drop_bit (nat (log_line_size c)) a"] ns
      by (simp add: extract_set_index_def)
  qed
qed

lemma cache_ok_set:
  assumes "cache_ok c" "si < length (sets c)"
  shows "length (lines (sets c ! si)) = nat (associativity c)" "lines_ok (lines (sets c ! si))"
  using assms by (auto simp: cache_ok_def)

lemma cache_ok_rank:
  assumes "cache_ok c" "si < length (sets c)" "int j < associativity c"
  shows "0 \<le> lru_order (lines (sets c ! si) ! j)"
    and "lru_order (lines (sets c ! si) ! j) < associativity c"
proof -
  have j: "j < length (lines (sets c ! si))"
    using cache_ok_set(1) [OF assms(1,2)] assms(3) by simp
  from lines_ok_rank_range [OF cache_ok_set(2) [OF assms(1,2)] j]
  show "0 \<le> lru_order (lines (sets c ! si) ! j)"
    and "lru_order (lines (sets c ! si) ! j) < associativity c"
    using cache_ok_set(1) [OF assms(1,2)] assms(1) by (auto simp: cache_ok_def)
qed

lemma cache_ok_victim:
  assumes "cache_ok c" "si < length (sets c)"
  shows "int (find_lru_line_index c si) < associativity c"
    and "is_valid (lines (sets c ! si) ! find_lru_line_index c si)
         \<or> (\<forall>j<find_lru_line_index c si. is_valid (lines (sets c ! si) ! j))"
proof -
  have a: "0 < associativity c" using assms(1) by (simp add: cache_ok_def)
  have nn: "\<forall>j. int j < associativity c \<longrightarrow> 0 \<le> lru_order (lines (sets c ! si) ! j)"
    using cache_ok_rank(1) [OF assms] by blast
  from victim_spec [OF a nn]
  show "int (find_lru_line_index c si) < associativity c"
    and "is_valid (lines (sets c ! si) ! find_lru_line_index c si)
         \<or> (\<forall>j<find_lru_line_index c si. is_valid (lines (sets c ! si) ! j))"
    unfolding find_lru_line_index_def by blast+
qed

lemma cache_okI:
  assumes "cache_ok c" "si < length (sets c)"
    and "associativity c' = associativity c" "num_sets c' = num_sets c"
    and "log_line_size c' = log_line_size c" "log_num_sets c' = log_num_sets c"
    and "length (sets c') = length (sets c)"
    and "\<And>j. j \<noteq> si \<Longrightarrow> sets c' ! j = sets c ! j"
    and "length (lines (sets c' ! si)) = length (lines (sets c ! si))"
    and "lines_ok (lines (sets c' ! si))"
  shows "cache_ok c'"
proof -
  have "length (lines s) = nat (associativity c) \<and> lines_ok (lines s)" if "s \<in> set (sets c')" for s
  proof -
    from that obtain j where j: "j < length (sets c')" "s = sets c' ! j"
      by (auto simp: in_set_conv_nth)
    show ?thesis
    proof (cases "j = si")
      case True
      then show ?thesis using assms j cache_ok_set(1) [OF assms(1,2)] by simp
    next
      case False
      then have "s = sets c ! j" using assms(8) j by simp
      moreover have "j < length (sets c)" using j assms(7) by simp
      ultimately show ?thesis using cache_ok_set [OF assms(1)] by simp
    qed
  qed
  then show ?thesis
    using assms(1,3-7) by (simp add: cache_ok_def)
qed

lemma touched_hit:
  assumes ok: "cache_ok c" and si: "si < length (sets c)" and li: "int li < associativity c"
    and v: "is_valid (lines (sets c ! si) ! li)"
  shows "touched li (lines (sets c ! si)) (lines (sets (hit_update c opn si li) ! si))"
proof -
  have len: "length (lines (sets c ! si)) = nat (associativity c)"
    by (rule cache_ok_set(1) [OF ok si])
  have a: "associativity c < 2147483648" using ok by (simp add: cache_ok_def)
  have inc: "int32 (lru_order (lines (sets c ! si) ! j) + 1) = lru_order (lines (sets c ! si) ! j) + 1"
    if "j < length (lines (sets c ! si))" for j
  proof -
    have "int j < associativity c" using that len by simp
    from cache_ok_rank [OF ok si this] a show ?thesis by (intro int32_id) linarith+
  qed
  show ?thesis
    unfolding touched_def using si len inc v
    by (auto simp: nth_lines_hit_update)
qed

lemma touched_miss:
  assumes ok: "cache_ok c" and si: "si < length (sets c)"
  shows "touched (find_lru_line_index c si) (lines (sets c ! si))
           (lines (sets (handle_cache_miss c opn si t) ! si))"
proof -
  have len: "length (lines (sets c ! si)) = nat (associativity c)"
    by (rule cache_ok_set(1) [OF ok si])
  have a: "associativity c < 2147483648" using ok by (simp add: cache_ok_def)
  have v: "find_lru_line_index c si < length (lines (sets c ! si))"
    using cache_ok_victim(1) [OF ok si] len by simp
  have inc: "int32 (lru_order (lines (sets c ! si) ! j) + 1) = lru_order (lines (sets c ! si) ! j) + 1"
    if "j < length (lines (sets c ! si))" for j
  proof -
    have "int j < associativity c" using that len by simp
    from cache_ok_rank [OF ok si this] a show ?thesis by (intro int32_id) linarith+
  qed
  show ?thesis
    unfolding touched_def using si len inc v
    by (auto simp: nth_lines_handle_cache_miss)
qed

lemma cache_ok_hit_update:
  assumes ok: "cache_ok c" and si: "si < length (sets c)" and li: "int li < associativity c"
    and v: "is_valid (lines (sets c ! si) ! li)"
  shows "cache_ok (hit_update c opn si li)"
proof (rule cache_okI [OF ok si])
  have len: "length (lines (sets c ! si)) = nat (associativity c)"
    by (rule cache_ok_set(1) [OF ok si])
  show "lines_ok (lines (sets (hit_update c opn si li) ! si))"
    using lines_ok_touched [OF cache_ok_set(2) [OF ok si] _ _ touched_hit [OF ok si li v]] li len v
    by simp
qed (use si in simp_all)

lemma cache_ok_handle_cache_miss:
  assumes ok: "cache_ok c" and si: "si < length (sets c)"
  shows "cache_ok (handle_cache_miss c opn si t)"
proof (rule cache_okI [OF ok si])
  have len: "length (lines (sets c ! si)) = nat (associativity c)"
    by (rule cache_ok_set(1) [OF ok si])
  have v: "find_lru_line_index c si < length (lines (sets c ! si))"
    using cache_ok_victim(1) [OF ok si] len by simp
  show "lines_ok (lines (sets (handle_cache_miss c opn si t) ! si))"
    by (rule lines_ok_touched [OF cache_ok_set(2) [OF ok si] v cache_ok_victim(2) [OF ok si]
              touched_miss [OF ok si]])
qed (use si in simp_all)

lemma access_cache_ok:
  assumes ok: "cache_ok c"
  shows "\<exists>h c'. access_cache c opn = Inr (h, c') \<and> cache_ok c'"
proof -
  let ?si = "nat (extract_set_index (address opn) c)"
  let ?t = "extract_tag_number (address opn) c"
  from extract_set_index_range [OF ok, of "address opn"]
  have rng: "0 \<le> extract_set_index (address opn) c" "extract_set_index (address opn) c < num_sets c"
    by auto
  have lens: "length (sets c) = nat (num_sets c)" using ok by (simp add: cache_ok_def)
  have si: "?si < length (sets c)" using rng lens by simp
  have len: "length (lines (sets c ! ?si)) = nat (associativity c)"
    by (rule cache_ok_set(1) [OF ok si])
  have guard: "\<not> (extract_set_index (address opn) c > num_sets c)"
     "\<not> (extract_set_index (address opn) c < 0 \<or> int (length (sets c)) \<le> extract_set_index (address opn) c
              \<or> int (length (lines (sets c ! ?si))) < associativity c
              \<or> (associativity c \<le> 0 \<and> lines (sets c ! ?si) = []))"
    using rng lens len ok by (auto simp: cache_ok_def)
  show ?thesis
  proof (cases rule: is_cache_hit_cases [of c ?si ?t opn])
    case miss
    then show ?thesis
      using guard cache_ok_handle_cache_miss [OF ok si, of opn ?t]
      by (auto simp: access_cache_def Let_def)
  next
    case (hit j)
    then show ?thesis
      using guard cache_ok_hit_update [OF ok si hit(1,2), of opn]
      by (auto simp: access_cache_def Let_def)
  qed
qed

lemma replay_ok:
  "cache_ok c \<Longrightarrow> \<exists>hs c'. replay c ops = Inr (hs, c') \<and> cache_ok c' \<and> length hs = length ops"
proof (induction ops arbitrary: c)
  case Nil
  then show ?case by simp
next
  case (Cons opn ops)
  from access_cache_ok [OF Cons.prems, of opn] obtain h c1
    where a: "access_cache c opn = Inr (h, c1)" and ok1: "cache_ok c1" by blast
  from Cons.IH [OF ok1] obtain hs c' where "replay c1 ops = Inr (hs, c')" "cache_ok c'" "length hs = length ops"
    by blast
  then show ?case using a by simp
qed

lemma initialize_cache_ok:
  assumes "valid_geometry assoc lsize csize"
  shows "\<exists>c. initialize_cache assoc csize lsize miss_pen dirty_pen = Some c \<and> cache_ok c"
proof -
  from initialize_cache_valid [OF assms] obtain c w s l where
    c: "initialize_cache assoc csize lsize miss_pen dirty_pen = Some c"
    and f: "associativity c = 2 ^ w" "num_sets c = 2 ^ s" "log_line_size c = int l"
       "log_num_sets c = int s" "w + s + l \<le> 30"
    and st: "sets c = map (\<lambda>i. \<lparr>lines =
                  map (\<lambda>j. \<lparr>tag = 0, is_valid = False, is_dirty = False, lru_order = int j\<rparr>)
                    [0..<2 ^ w]\<rparr>) [0..<2 ^ s]"
    by blast
  have "(2::int) ^ w \<le> 2 ^ 30" using f(5) by (intro power_increasing) auto
  then have w: "(2::int) ^ w < 2147483648" by simp
  have nat2: "\<And>k. nat (2 ^ k) = 2 ^ k"
    by (metis nat_int of_nat_numeral of_nat_power)
  have lo: "lines_ok (map (\<lambda>j. \<lparr>tag = 0, is_valid = False, is_dirty = False, lru_order = int j\<rparr>)
                    [0..<2 ^ w])"
    unfolding lines_ok_def by (intro exI [of _ 0]) simp
  have "cache_ok c"
    unfolding cache_ok_def using f w lo by (auto simp: st nat2)
  with c show ?thesis by blast
qed

section \<open>An access kind other than a store is a load\<close>

lemma is_cache_hit_loop_kind:
  "(access_type op1 = CHR ''s'') = (access_type op2 = CHR ''s'') \<Longrightarrow>
   is_cache_hit_loop c op1 si t i = is_cache_hit_loop c op2 si t i"
proof (induction c op1 si t i rule: is_cache_hit_loop.induct)
  case (1 cache cache_op set_index tg i)
  show ?case
    using 1 by (subst (1 2) is_cache_hit_loop.simps) (simp add: Let_def)
qed

lemma handle_cache_miss_kind:
  "(access_type op1 = CHR ''s'') = (access_type op2 = CHR ''s'') \<Longrightarrow>
   handle_cache_miss c op1 si t = handle_cache_miss c op2 si t"
  by (simp add: handle_cache_miss_def)

text \<open>
  C10. The engine tests the access kind only against \<open>'s'\<close>: an access of any other
  kind, recognised or not, returns the same outcome, the same cache and the same
  statistics (or the same fault) as a load of the same address. No kind is rejected.
\<close>

theorem other_kind_is_load:
  assumes "access_type cache_op \<noteq> CHR ''s''"
  shows "access_cache cache cache_op
         = access_cache cache (cache_op\<lparr>access_type := CHR ''l''\<rparr>)"
proof -
  let ?op2 = "cache_op\<lparr>access_type := CHR ''l''\<rparr>"
  have k: "(access_type cache_op = CHR ''s'') = (access_type ?op2 = CHR ''s'')"
    using assms by simp
  have a: "address ?op2 = address cache_op" by simp
  show ?thesis
    unfolding access_cache_def is_cache_hit_def a
    by (simp only: is_cache_hit_loop_kind [OF k] handle_cache_miss_kind [OF k])
qed

theorem other_kind_is_load_witness:
  "CHR ''x'' \<noteq> CHR ''s''
   \<and> access_cache dm_cache1 \<lparr>access_type = CHR ''x'', address = 0x200, instructions = 1\<rparr>
     = access_cache dm_cache1 \<lparr>access_type = CHR ''l'', address = 0x200, instructions = 1\<rparr>
   \<and> access_cache dm_cache1 \<lparr>access_type = CHR ''x'', address = 0x200, instructions = 1\<rparr>
     = Inr (True, dm_cache1\<lparr>stats := \<lparr>hits = 1, misses = 1, dirty_write_backs = 0\<rparr>\<rparr>)"
proof -
  have k: "access_type \<lparr>access_type = CHR ''x'', address = 0x200 :: 64 word, instructions = 1\<rparr>
           \<noteq> CHR ''s''"
    by simp
  have r: "access_cache dm_cache1 \<lparr>access_type = CHR ''l'', address = 0x200, instructions = 1\<rparr>
     = Inr (True, dm_cache1\<lparr>stats := \<lparr>hits = 1, misses = 1, dirty_write_backs = 0\<rparr>\<rparr>)"
    by code_simp
  show ?thesis
    using other_kind_is_load [OF k, of dm_cache1] r by simp
qed

section \<open>One access touches one set\<close>

lemma frame_refl: "frame c si c"
  by (simp add: frame_def)

lemma frame_stats: "frame c si c1 \<Longrightarrow> frame c si (c1\<lparr>stats := st\<rparr>)"
  by (simp add: frame_def)

lemma frame_update_lru_order: "frame c si c1 \<Longrightarrow> frame c si (update_lru_order c1 si li)"
  by (simp add: frame_def update_lru_order_def Let_def)

lemma frame_modify_line: "frame c si c1 \<Longrightarrow> frame c si (modify_line c1 si li f)"
  by (simp add: frame_def modify_line_def)

lemma frame_is_cache_hit_loop: "frame c si (snd (is_cache_hit_loop c opn si t i))"
proof (induction c opn si t i rule: is_cache_hit_loop.induct)
  case (1 cache cache_op set_index tg i)
  show ?case
    using 1
    by (subst is_cache_hit_loop.simps)
       (auto simp: Let_def frame_refl
             intro!: frame_stats frame_modify_line frame_update_lru_order)
qed

lemma frame_handle_cache_miss: "frame c si (handle_cache_miss c opn si t)"
  unfolding handle_cache_miss_def Let_def
  by (auto intro!: frame_update_lru_order frame_modify_line frame_stats frame_refl)

lemma frame_access_cache:
  "access_cache c opn = Inr (h, c') \<Longrightarrow> frame c (nat (extract_set_index (address opn) c)) c'"
  unfolding access_cache_def Let_def is_cache_hit_def
  by (auto split: if_splits intro: frame_is_cache_hit_loop frame_handle_cache_miss)

text \<open>
  A cache without lines: \<^verbatim>\<open>initialize_cache(0, 1, 2048, 30, 2)\<close> has one set, associativity
  0 and an empty line array. An access is then no miss: the source reads \<^verbatim>\<open>lines[0]\<close>.
\<close>

lemma access_without_lines:
  "map_option (\<lambda>c. (associativity c, num_sets c, concat (map lines (sets c)),
                     access_cache c (load_op 0)))
     (initialize_cache 0 1 2048 30 2)
   = Some (0, 1, [], Inl Out_Of_Bounds)"
  by code_simp

text \<open>
  C9. An access that returns (a hit or a miss) changes nothing but the addressed set
  and the statistics: the new cache is the old one with that one set and the statistics
  replaced, every other set is the same (tag, valid, dirty and rank of each of its lines),
  and the geometry fields are the same.
\<close>

theorem access_touches_one_set:
  assumes "access_cache cache cache_op = Inr (h, cache')"
  shows "cache' = cache\<lparr>sets := (sets cache)[nat (extract_set_index (address cache_op) cache)
                              := sets cache' ! nat (extract_set_index (address cache_op) cache)],
                         stats := stats cache'\<rparr>
       \<and> length (sets cache') = length (sets cache)
       \<and> (\<forall>j. j \<noteq> nat (extract_set_index (address cache_op) cache)
              \<longrightarrow> sets cache' ! j = sets cache ! j)
       \<and> associativity cache' = associativity cache \<and> cache_size cache' = cache_size cache
       \<and> line_size cache' = line_size cache \<and> miss_penalty cache' = miss_penalty cache
       \<and> dirty_wb_penalty cache' = dirty_wb_penalty cache \<and> num_sets cache' = num_sets cache
       \<and> log_line_size cache' = log_line_size cache
       \<and> log_num_sets cache' = log_num_sets cache"
proof -
  let ?si = "nat (extract_set_index (address cache_op) cache)"
  have f: "frame cache ?si cache'"
    by (rule frame_access_cache [OF assms])
  have "sets cache' = (sets cache)[?si := sets cache' ! ?si]"
  proof (rule nth_equalityI)
    show "length (sets cache') = length ((sets cache)[?si := sets cache' ! ?si])"
      using f by (simp add: frame_def)
  next
    fix i assume "i < length (sets cache')"
    then have i: "i < length (sets cache)" using f by (simp add: frame_def)
    show "sets cache' ! i = (sets cache)[?si := sets cache' ! ?si] ! i"
    proof (cases "i = ?si")
      case True then show ?thesis using i by simp
    next
      case False then show ?thesis using f by (simp add: frame_def)
    qed
  qed
  then have "cache' = cache\<lparr>sets := (sets cache)[?si := sets cache' ! ?si],
                             stats := stats cache'\<rparr>"
    using f by (intro Cache.equality) (simp_all add: frame_def)
  then show ?thesis
    using f by (simp add: frame_def)
qed

theorem access_touches_one_set_witness:
  "access_cache dm_cache0 (store_op 0x200) = Inr (False, dm_cache1)
   \<and> nat (extract_set_index (address (store_op 0x200)) dm_cache0) = 1
   \<and> sets dm_cache1 ! 0 = sets dm_cache0 ! 0
   \<and> sets dm_cache1 ! 1 \<noteq> sets dm_cache0 ! 1
   \<and> num_sets dm_cache1 = num_sets dm_cache0"
proof -
  have h: "access_cache dm_cache0 (store_op 0x200) = Inr (False, dm_cache1)"
    by code_simp
  have i: "nat (extract_set_index (address (store_op 0x200)) dm_cache0) = 1"
    by code_simp
  have d: "sets dm_cache1 ! 1 \<noteq> sets dm_cache0 ! 1"
    by (simp add: dm_cache1_def dm_cache0_def dm_cache_def)
  show ?thesis
    using access_touches_one_set [OF h] h i d by simp
qed

section \<open>The range check of the set index\<close>

text \<open>
  C1. The check in \<^verbatim>\<open>access_cache\<close> is \<^verbatim>\<open>set_index > num_sets\<close>, so a decoded set index
  equal to \<open>num_sets\<close> passes it. \<^verbatim>\<open>initialize_cache(4, 1, 1024, 30, 2)\<close> builds a cache
  with \<open>num_sets = 0\<close>; every address decodes to set index 0 there, the check does not
  fire, and the access goes on to read \<^verbatim>\<open>cache->sets[0]\<close>, outside the empty array.
  In the two-set cache with the two-bit decoder, address \<open>0x400\<close> decodes to set index
  \<open>2 = num_sets\<close> and is read out of bounds as well, while address \<open>0x600\<close>, with set
  index 3, is the one the check stops.
\<close>

theorem set_index_equal_num_sets_passes_check:
  "(case initialize_cache 4 1 1024 30 2 of
      None \<Rightarrow> False
    | Some c \<Rightarrow>
        num_sets c = 0 \<and> sets c = []
        \<and> extract_set_index (address (load_op 0)) c = num_sets c
        \<and> access_cache c (load_op 0) = Inl Out_Of_Bounds)
   \<and> num_sets skewed_cache = 2 \<and> length (sets skewed_cache) = 2
   \<and> extract_set_index (address (load_op 0x400)) skewed_cache = 2
   \<and> access_cache skewed_cache (load_op 0x400) = Inl Out_Of_Bounds
   \<and> extract_set_index (address (load_op 0x600)) skewed_cache = 3
   \<and> access_cache skewed_cache (load_op 0x600) = Inl Exit_Failure"
  by code_simp

section \<open>The two-way scenario\<close>

text \<open>
  The engine of 32 bytes is the two-way cache of one kilobyte that the constructor
  builds, with lines of 16 bytes in the place of lines of 512 bytes.
\<close>

lemma engine_32_bytes_constructed:
  "initialize_cache 2 1 512 miss_pen dirty_pen
   = Some ((engine_32_bytes 1 miss_pen dirty_pen)\<lparr>line_size := 512, log_line_size := 9\<rparr>)"
  by code_simp


text \<open>
  The same scenario on a cache that the constructor builds: associativity 2, lines of
  512 bytes, one kilobyte, and stores to \<open>0x000\<close>, \<open>0x200\<close> and \<open>0x400\<close>.
\<close>

theorem scenario_two_way:
  "case initialize_cache 2 1 512 30 2 of
     None \<Rightarrow> False
   | Some c \<Rightarrow>
       num_sets c = 1 \<and> associativity c = 2
       \<and> (case replay c [store_op 0x000, store_op 0x200] of
            Inl e \<Rightarrow> False
          | Inr (hs, c2) \<Rightarrow>
              hs = [False, False]
              \<and> dirty_write_backs (stats c2) = 0
              \<and> find_lru_line_index c2 0 = 0
              \<and> tag (lines (sets c2 ! 0) ! 0) = extract_tag_number 0x000 c
              \<and> is_dirty (lines (sets c2 ! 0) ! 0)
              \<and> (case access_cache c2 (store_op 0x400) of
                    Inl e \<Rightarrow> False
                  | Inr (h, c3) \<Rightarrow>
                      \<not> h \<and> tag (lines (sets c3 ! 0) ! 0) = extract_tag_number 0x400 c
                      \<and> tag (lines (sets c3 ! 0) ! 1) = extract_tag_number 0x200 c
                      \<and> dirty_write_backs (stats c3) = 1))
       \<and> (case replay c [store_op 0x000, store_op 0x200, store_op 0x400] of
            Inl e \<Rightarrow> False
          | Inr (hs, c3) \<Rightarrow>
              hs = [False, False, False] \<and> misses (stats c3) = 3
              \<and> dirty_write_backs (stats c3) = 1)"
  by code_simp

section \<open>Ranks of the valid lines\<close>

lemma filter_prefix:
  assumes "k \<le> length xs" "\<forall>j<length xs. P (xs ! j) = (j < k)"
  shows "filter P xs = take k xs"
proof -
  have a: "filter P (take k xs) = take k xs"
    using assms by (intro filter_True) (auto simp: in_set_conv_nth)
  have b: "filter P (drop k xs) = []"
    using assms by (intro filter_False) (auto simp: in_set_conv_nth)
  have "filter P xs = filter P (take k xs @ drop k xs)" by simp
  also have "\<dots> = take k xs" unfolding filter_append a b by simp
  finally show ?thesis .
qed

lemma lines_ok_mset:
  assumes "lines_ok ls"
  shows "mset (map lru_order (filter is_valid ls))
         = mset (map int [0..<length (filter is_valid ls)])"
proof -
  from assms obtain k where k: "k \<le> length ls"
    and A: "\<forall>j<length ls. is_valid (ls ! j) = (j < k)"
    and C: "\<forall>j<k. 0 \<le> lru_order (ls ! j) \<and> lru_order (ls ! j) < int k"
    and D: "inj_on (\<lambda>j. lru_order (ls ! j)) {..<k}"
    unfolding lines_ok_def by blast
  have f: "filter is_valid ls = take k ls" by (rule filter_prefix [OF k A])
  let ?rs = "map lru_order (take k ls)"
  have len: "length ?rs = k" using k by simp
  have nth: "\<And>j. j < k \<Longrightarrow> ?rs ! j = lru_order (ls ! j)" using k by simp
  have d: "distinct ?rs"
    unfolding distinct_conv_nth len using D nth by (auto simp: inj_on_def)
  have sub: "set ?rs \<subseteq> int ` {..<k}"
  proof
    fix x assume "x \<in> set ?rs"
    then obtain j where j: "j < k" "x = ?rs ! j" using len by (metis in_set_conv_nth)
    then have "0 \<le> x" "x < int k" using C nth by auto
    then have "x = int (nat x)" "nat x < k" by auto
    then show "x \<in> int ` {..<k}" by blast
  qed
  have "card (set ?rs) = k" using distinct_card [OF d] len by simp
  moreover have "card (int ` {..<k}) = k" by (simp add: card_image)
  ultimately have "set ?rs = int ` {..<k}"
    using sub by (intro card_subset_eq) auto
  moreover have "set (map int [0..<k]) = int ` {..<k}" by (simp add: lessThan_atLeast0)
  ultimately have "set ?rs = set (map int [0..<k])" by simp
  moreover have "distinct (map int [0..<k])" by (simp add: distinct_map)
  ultimately have "mset ?rs = mset (map int [0..<k])"
    using d set_eq_iff_mset_eq_distinct [of ?rs "map int [0..<k]"] by blast
  then show ?thesis using k by (simp add: f)
qed

text \<open>
  C2. For every geometry that passes the checks of \<^verbatim>\<open>validate_args\<close>
  (\<open>valid_geometry\<close>) and every sequence of accesses (the empty one is the state after
  construction), the replay returns, and in every set of the resulting cache the multiset of the ranks of the valid lines is
  \<open>{0, 1, ..., k - 1}\<close>, \<open>k\<close> being the number of valid lines of that set.
\<close>

theorem valid_ranks_dense:
  assumes "valid_geometry assoc lsize csize"
  shows "\<exists>c0 hs c.
           initialize_cache assoc csize lsize miss_pen dirty_pen = Some c0
           \<and> replay c0 ops = Inr (hs, c)
           \<and> (\<forall>s\<in>set (sets c).
                 mset (map lru_order (filter is_valid (lines s)))
                 = mset (map int [0..<length (filter is_valid (lines s))]))"
proof -
  from initialize_cache_ok [OF assms] obtain c0
    where c0: "initialize_cache assoc csize lsize miss_pen dirty_pen = Some c0" "cache_ok c0"
    by blast
  from replay_ok [OF c0(2), of ops] obtain hs c
    where c: "replay c0 ops = Inr (hs, c)" "cache_ok c" by blast
  have "\<forall>s\<in>set (sets c). lines_ok (lines s)" using c(2) by (simp add: cache_ok_def)
  then show ?thesis using c0(1) c(1) lines_ok_mset by blast
qed

theorem valid_ranks_dense_witness:
  "valid_geometry 2 512 1
   \<and> (\<exists>c0 hs c.
         initialize_cache 2 1 512 30 2 = Some c0
         \<and> replay c0 [store_op 0x000, load_op 0x200, load_op 0x000, store_op 0x400] = Inr (hs, c)
         \<and> (\<forall>s\<in>set (sets c).
               mset (map lru_order (filter is_valid (lines s)))
               = mset (map int [0..<length (filter is_valid (lines s))])))
   \<and> (case initialize_cache 2 1 512 30 2 of
         None \<Rightarrow> False
       | Some c0 \<Rightarrow>
           (case replay c0 [store_op 0x000, load_op 0x200, load_op 0x000, store_op 0x400] of
              Inl e \<Rightarrow> False
            | Inr (hs, c) \<Rightarrow>
                hs = [False, False, True, False]
                \<and> length (sets c) = 1
                \<and> map lru_order (filter is_valid (lines (sets c ! 0))) = [1, 0]))"
proof -
  have v: "valid_geometry 2 512 1" by code_simp
  have e: "case initialize_cache 2 1 512 30 2 of
         None \<Rightarrow> False
       | Some c0 \<Rightarrow>
           (case replay c0 [store_op 0x000, load_op 0x200, load_op 0x000, store_op 0x400] of
              Inl e \<Rightarrow> False
            | Inr (hs, c) \<Rightarrow>
                hs = [False, False, True, False]
                \<and> length (sets c) = 1
                \<and> map lru_order (filter is_valid (lines (sets c ! 0))) = [1, 0])"
    by code_simp
  show ?thesis
    using v e valid_ranks_dense [OF v, where miss_pen = 30 and dirty_pen = 2
            and ops = "[store_op 0x000, load_op 0x200, load_op 0x000, store_op 0x400]"]
    by blast
qed

section \<open>The geometry of the constructed cache\<close>

text \<open>
  C8. For every geometry that passes the checks of \<^verbatim>\<open>validate_args\<close>
  (\<open>valid_geometry\<close>: associativity 0, 1 or a power of two within the cache's limits;
  line size and cache size powers of two, the cache at least one line large) and for
  any penalties, the constructor returns a cache with
  \<open>num_sets * ways * line_size\<close> equal to the cache size in bytes, which is the
  \<open>cache_size\<close> field (kilobytes) times 1024.
\<close>

theorem constructed_geometry_product:
  assumes "valid_geometry assoc lsize csize"
  shows "\<exists>c. initialize_cache assoc csize lsize miss_pen dirty_pen = Some c
           \<and> num_sets c * associativity c * line_size c = cache_size c * 1024
           \<and> cache_size c = csize \<and> line_size c = lsize
           \<and> associativity c = (if assoc = 0 then (csize * 1024) div lsize else assoc)"
proof -
  from initialize_cache_valid [OF assms] obtain c w s l where
    c: "initialize_cache assoc csize lsize miss_pen dirty_pen = Some c"
    and f: "associativity c = 2 ^ w" "num_sets c = 2 ^ s" "line_size c = 2 ^ l"
       "cache_size c * 1024 = 2 ^ (w + s + l)"
    and g: "cache_size c = csize" "line_size c = lsize"
       "associativity c = (if assoc = 0 then (csize * 1024) div lsize else assoc)"
    by blast
  have "num_sets c * associativity c * line_size c = cache_size c * 1024"
    unfolding f by (simp add: power_add)
  with c g show ?thesis by blast
qed

theorem constructed_geometry_product_witness:
  "valid_geometry 4 32 64
   \<and> (\<exists>c. initialize_cache 4 64 32 50 5 = Some c
           \<and> num_sets c * associativity c * line_size c = cache_size c * 1024
           \<and> cache_size c = 64 \<and> line_size c = 32 \<and> associativity c = 4 \<and> num_sets c = 512)"
proof -
  have v: "valid_geometry 4 32 64" by code_simp
  from constructed_geometry_product [OF v, where miss_pen = 50 and dirty_pen = 5] obtain c where
    c: "initialize_cache 4 64 32 50 5 = Some c"
      "num_sets c * associativity c * line_size c = cache_size c * 1024"
      "cache_size c = 64" "line_size c = 32" "associativity c = 4"
    by auto
  then have "num_sets c = 512" by simp
  with v c show ?thesis by blast
qed

section \<open>Address decoding\<close>

lemma uint_drop_bit_div: "uint (drop_bit k (addr::64 word)) = uint addr div 2 ^ k"
proof -
  have a: "take_bit LENGTH(64) (uint addr) = uint addr"
    using uint_lt2p [of addr] by (intro take_bit_int_eq_self) simp_all
  have "uint (drop_bit k addr) = drop_bit k (take_bit LENGTH(64) (uint addr))"
    by (rule unsigned_drop_bit_eq)
  also have "\<dots> = uint addr div 2 ^ k"
    unfolding a by (rule drop_bit_eq_div)
  finally show ?thesis .
qed

lemma int_div_less:
  assumes "(0::int) < c" "a < b * c"
  shows "a div c < b"
proof (rule ccontr)
  assume "\<not> a div c < b"
  then have "b * c \<le> a div c * c" using assms(1) by (simp add: mult_right_mono)
  moreover have "a div c * c + a mod c = a" by simp
  moreover have "0 \<le> a mod c" using assms(1) by simp
  ultimately show False using assms(2) by linarith
qed

text \<open>
  C4 as the specification words it fails for the tag: \<^verbatim>\<open>extract_tag_number\<close> returns an
  \<^verbatim>\<open>int\<close>, so the shifted address is cut to 32 bits. In a one-kilobyte cache with lines
  of 1024 bytes the address \<open>2^42\<close> has the shifted value \<open>2^32\<close> and the tag 0, the tag
  of address 0: after a load of address 0, a load of \<open>2^42\<close> is a hit.
\<close>

theorem tag_is_truncated_counterexample:
  "valid_geometry 1 1024 1
   \<and> map_option log_line_size (initialize_cache 1 1 1024 30 2) = Some 10
   \<and> map_option log_num_sets (initialize_cache 1 1 1024 30 2) = Some 0
   \<and> uint (drop_bit (10 + 0) (0x40000000000 :: 64 word)) = 4294967296
   \<and> map_option (extract_tag_number 0x40000000000) (initialize_cache 1 1 1024 30 2) = Some 0
   \<and> map_option (extract_tag_number 0x40000000000) (initialize_cache 1 1 1024 30 2)
       \<noteq> Some (uint (drop_bit (10 + 0) (0x40000000000 :: 64 word)))
   \<and> simulate 1 1 1024 30 2 [load_op 0x0, load_op 0x40000000000]
       = Some ([False, True], \<lparr>hits = 1, misses = 1, dirty_write_backs = 0\<rparr>)"
  by code_simp

text \<open>
  C4 as amended. For every address and every geometry that passes the checks of
  \<^verbatim>\<open>validate_args\<close> (\<open>valid_geometry\<close>), decoding is total; with \<open>line_size = 2^l\<close> and \<open>num_sets = 2^n\<close>, the set index is 0
  when \<open>num_sets = 1\<close> and \<open>(address >> l) & (num_sets - 1)\<close> otherwise; the tag is
  \<open>address >> (l + n)\<close> cut to a signed 32-bit integer, which is \<open>address >> (l + n)\<close>
  itself for every address below \<open>2^(31 + l + n)\<close>.
\<close>

theorem address_decoding:
  assumes "valid_geometry assoc lsize csize"
  shows "\<exists>c l n. initialize_cache assoc csize lsize miss_pen dirty_pen = Some c
           \<and> line_size c = 2 ^ l \<and> num_sets c = 2 ^ n
           \<and> (\<forall>addr.
                 extract_set_index addr c
                   = (if num_sets c = 1 then 0
                      else uint (drop_bit l addr AND word_of_int (num_sets c - 1)))
                 \<and> extract_tag_number addr c = int32 (uint (drop_bit (l + n) addr))
                 \<and> (uint addr < 2 ^ (31 + l + n)
                      \<longrightarrow> extract_tag_number addr c = uint (drop_bit (l + n) addr)))"
proof -
  from initialize_cache_valid [OF assms] obtain c w n l where
    c: "initialize_cache assoc csize lsize miss_pen dirty_pen = Some c"
    and f: "num_sets c = 2 ^ n" "line_size c = 2 ^ l" "log_line_size c = int l"
       "log_num_sets c = int n" "w + n + l \<le> 30"
    by blast
  have n30: "n \<le> 30" using f(5) by simp
  have sh: "nat (int32 (int l + int n)) = l + n"
  proof -
    have "int32 (int l + int n) = int l + int n" using f(5) by (intro int32_id) auto
    then show ?thesis by simp
  qed
  have si: "extract_set_index addr c
                   = (if num_sets c = 1 then 0
                      else uint (drop_bit l addr AND word_of_int (num_sets c - 1)))" for addr
    using set_index_mask(1) [OF n30, of "drop_bit l addr"]
    by (simp add: extract_set_index_def f)
  have tg: "extract_tag_number addr c = int32 (uint (drop_bit (l + n) addr))" for addr
    by (simp add: extract_tag_number_def f sh)
  have small: "extract_tag_number addr c = uint (drop_bit (l + n) addr)"
    if "uint addr < 2 ^ (31 + l + n)" for addr
  proof -
    have "uint (drop_bit (l + n) addr) = uint addr div 2 ^ (l + n)"
      by (rule uint_drop_bit_div)
    also have "\<dots> < 2 ^ 31"
      using that by (intro int_div_less) (simp_all add: power_add mult.assoc)
    finally have "uint (drop_bit (l + n) addr) < 2147483648" by simp
    moreover have "0 \<le> uint (drop_bit (l + n) addr)" by simp
    ultimately have "int32 (uint (drop_bit (l + n) addr)) = uint (drop_bit (l + n) addr)"
      by (intro int32_id) linarith+
    then show ?thesis by (simp add: tg)
  qed
  show ?thesis
    using c f(1,2) si tg small by blast
qed

theorem address_decoding_witness:
  "valid_geometry 1 512 1
   \<and> (\<exists>c l n. initialize_cache 1 1 512 30 2 = Some c
           \<and> line_size c = 2 ^ l \<and> num_sets c = 2 ^ n
           \<and> (\<forall>addr.
                 extract_set_index addr c
                   = (if num_sets c = 1 then 0
                      else uint (drop_bit l addr AND word_of_int (num_sets c - 1)))
                 \<and> extract_tag_number addr c = int32 (uint (drop_bit (l + n) addr))
                 \<and> (uint addr < 2 ^ (31 + l + n)
                      \<longrightarrow> extract_tag_number addr c = uint (drop_bit (l + n) addr))))
   \<and> (case initialize_cache 1 1 512 30 2 of
         None \<Rightarrow> False
       | Some c \<Rightarrow>
           line_size c = 2 ^ 9 \<and> num_sets c = 2 ^ 1
           \<and> uint (0xABFDE :: 64 word) < 2 ^ (31 + 9 + 1)
           \<and> extract_set_index 0xABFDE c = 1
           \<and> extract_tag_number 0xABFDE c = 687)"
proof -
  have v: "valid_geometry 1 512 1" by code_simp
  have e: "case initialize_cache 1 1 512 30 2 of
         None \<Rightarrow> False
       | Some c \<Rightarrow>
           line_size c = 2 ^ 9 \<and> num_sets c = 2 ^ 1
           \<and> uint (0xABFDE :: 64 word) < 2 ^ (31 + 9 + 1)
           \<and> extract_set_index 0xABFDE c = 1
           \<and> extract_tag_number 0xABFDE c = 687"
    by code_simp
  show ?thesis
    using v e address_decoding [OF v, where miss_pen = 30 and dirty_pen = 2] by blast
qed

section \<open>The victim of a miss\<close>

lemma access_cache_miss_result:
  assumes "access_cache c opn = Inr (False, c')"
  shows "c' = handle_cache_miss c opn (nat (extract_set_index (address opn) c))
                (extract_tag_number (address opn) c)"
  using assms by (auto simp: access_cache_def Let_def split: if_splits)

lemma access_cache_guard:
  assumes "access_cache c opn = Inr (h, c')"
  shows "nat (extract_set_index (address opn) c) < length (sets c)"
    and "nat (associativity c) \<le> length (lines (sets c ! nat (extract_set_index (address opn) c)))"
  using assms by (auto simp: access_cache_def Let_def split: if_splits)

text \<open>
  C3. In every cache reached from a validated geometry by a sequence of accesses, a miss
  rewrites exactly one line of the addressed set, the victim \<open>v\<close> that
  \<^verbatim>\<open>find_lru_line_index\<close> returns. If some line of the set is invalid, \<open>v\<close> is the
  invalid line with the lowest index. Otherwise \<open>v\<close> has the maximum rank, and every
  line before it has a strictly smaller rank: the first maximum in index order.
\<close>

theorem victim_selection:
  assumes "valid_geometry assoc lsize csize"
  shows "\<exists>c0 hs c.
           initialize_cache assoc csize lsize miss_pen dirty_pen = Some c0
           \<and> replay c0 ops = Inr (hs, c)
           \<and> (\<forall>cache_op c'. access_cache c cache_op = Inr (False, c') \<longrightarrow>
                (let si = nat (extract_set_index (address cache_op) c);
                     ls = lines (sets c ! si);
                     ls' = lines (sets c' ! si);
                     n = nat (associativity c);
                     v = find_lru_line_index c si
                 in v < n
                    \<and> ((\<exists>j<n. \<not> is_valid (ls ! j))
                         \<longrightarrow> \<not> is_valid (ls ! v) \<and> (\<forall>j<v. is_valid (ls ! j)))
                    \<and> ((\<forall>j<n. is_valid (ls ! j))
                         \<longrightarrow> (\<forall>j<n. lru_order (ls ! j) \<le> lru_order (ls ! v))
                             \<and> (\<forall>j<v. lru_order (ls ! j) < lru_order (ls ! v)))
                    \<and> ls' ! v = (ls ! v)\<lparr>tag := extract_tag_number (address cache_op) c,
                                          is_valid := True,
                                          is_dirty := (access_type cache_op = CHR ''s''),
                                          lru_order := 0\<rparr>
                    \<and> (\<forall>j<n. j \<noteq> v \<longrightarrow>
                           tag (ls' ! j) = tag (ls ! j)
                           \<and> is_valid (ls' ! j) = is_valid (ls ! j)
                           \<and> is_dirty (ls' ! j) = is_dirty (ls ! j))))"
proof -
  from initialize_cache_ok [OF assms] obtain c0
    where c0: "initialize_cache assoc csize lsize miss_pen dirty_pen = Some c0" "cache_ok c0"
    by blast
  from replay_ok [OF c0(2), of ops] obtain hs c
    where c: "replay c0 ops = Inr (hs, c)" and ok: "cache_ok c" by blast
  have main: "(let si = nat (extract_set_index (address cache_op) c);
                     ls = lines (sets c ! si);
                     ls' = lines (sets c' ! si);
                     n = nat (associativity c);
                     v = find_lru_line_index c si
                 in v < n
                    \<and> ((\<exists>j<n. \<not> is_valid (ls ! j))
                         \<longrightarrow> \<not> is_valid (ls ! v) \<and> (\<forall>j<v. is_valid (ls ! j)))
                    \<and> ((\<forall>j<n. is_valid (ls ! j))
                         \<longrightarrow> (\<forall>j<n. lru_order (ls ! j) \<le> lru_order (ls ! v))
                             \<and> (\<forall>j<v. lru_order (ls ! j) < lru_order (ls ! v)))
                    \<and> ls' ! v = (ls ! v)\<lparr>tag := extract_tag_number (address cache_op) c,
                                          is_valid := True,
                                          is_dirty := (access_type cache_op = CHR ''s''),
                                          lru_order := 0\<rparr>
                    \<and> (\<forall>j<n. j \<noteq> v \<longrightarrow>
                           tag (ls' ! j) = tag (ls ! j)
                           \<and> is_valid (ls' ! j) = is_valid (ls ! j)
                           \<and> is_dirty (ls' ! j) = is_dirty (ls ! j)))"
    if acc: "access_cache c cache_op = Inr (False, c')" for cache_op c'
  proof -
    let ?si = "nat (extract_set_index (address cache_op) c)"
    let ?ls = "lines (sets c ! ?si)"
    let ?v = "find_lru_line_index c ?si"
    let ?n = "nat (associativity c)"
    have si: "?si < length (sets c)" by (rule access_cache_guard(1) [OF acc])
    have len: "length ?ls = ?n" by (rule cache_ok_set(1) [OF ok si])
    have c': "c' = handle_cache_miss c cache_op ?si (extract_tag_number (address cache_op) c)"
      by (rule access_cache_miss_result [OF acc])
    have a: "0 < associativity c" using ok by (simp add: cache_ok_def)
    have nn: "\<forall>j. int j < associativity c \<longrightarrow> 0 \<le> lru_order (?ls ! j)"
      using cache_ok_rank(1) [OF ok si] by blast
    have conv: "\<And>j. (int j < associativity c) = (j < ?n)" using a by auto
    note vs = victim_spec [OF a nn, folded find_lru_line_index_def, unfolded conv]
    have v: "?v < length ?ls" using vs len by simp
    have nthv: "lines (sets c' ! ?si) ! ?v
         = (?ls ! ?v)\<lparr>tag := extract_tag_number (address cache_op) c, is_valid := True,
                      is_dirty := (access_type cache_op = CHR ''s''), lru_order := 0\<rparr>"
      unfolding c' using nth_lines_handle_cache_miss [OF si v v] by simp
    have others: "\<forall>j<?n. j \<noteq> ?v \<longrightarrow>
                           tag (lines (sets c' ! ?si) ! j) = tag (?ls ! j)
                           \<and> is_valid (lines (sets c' ! ?si) ! j) = is_valid (?ls ! j)
                           \<and> is_dirty (lines (sets c' ! ?si) ! j) = is_dirty (?ls ! j)"
      unfolding c' using nth_lines_handle_cache_miss [OF si _ v] len by simp
    show ?thesis
      unfolding Let_def using vs nthv others by blast
  qed
  show ?thesis
    using c0(1) c main by blast
qed

theorem victim_selection_witness:
  "valid_geometry 2 512 1
   \<and> (\<exists>c0 hs c c'.
         initialize_cache 2 1 512 30 2 = Some c0
         \<and> replay c0 [store_op 0x000, store_op 0x200, load_op 0x000] = Inr (hs, c)
         \<and> access_cache c (store_op 0x400) = Inr (False, c')
         \<and> map is_valid (lines (sets c ! 0)) = [True, True]
         \<and> map lru_order (lines (sets c ! 0)) = [0, 1]
         \<and> find_lru_line_index c 0 = 1
         \<and> (\<forall>j<2. lru_order (lines (sets c ! 0) ! j)
                    \<le> lru_order (lines (sets c ! 0) ! find_lru_line_index c 0))
         \<and> map tag (lines (sets c' ! 0)) = [0, 2])"
proof -
  have v: "valid_geometry 2 512 1" by code_simp
  from victim_selection [OF v, where miss_pen = 30 and dirty_pen = 2
         and ops = "[store_op 0x000, store_op 0x200, load_op 0x000]"]
  obtain c0 hs c where
    c0: "initialize_cache 2 1 512 30 2 = Some c0"
    and c: "replay c0 [store_op 0x000, store_op 0x200, load_op 0x000] = Inr (hs, c)"
    and P: "\<And>cache_op c'. access_cache c cache_op = Inr (False, c') \<Longrightarrow>
                (let si = nat (extract_set_index (address cache_op) c);
                     ls = lines (sets c ! si);
                     ls' = lines (sets c' ! si);
                     n = nat (associativity c);
                     v = find_lru_line_index c si
                 in v < n
                    \<and> ((\<exists>j<n. \<not> is_valid (ls ! j))
                         \<longrightarrow> \<not> is_valid (ls ! v) \<and> (\<forall>j<v. is_valid (ls ! j)))
                    \<and> ((\<forall>j<n. is_valid (ls ! j))
                         \<longrightarrow> (\<forall>j<n. lru_order (ls ! j) \<le> lru_order (ls ! v))
                             \<and> (\<forall>j<v. lru_order (ls ! j) < lru_order (ls ! v)))
                    \<and> ls' ! v = (ls ! v)\<lparr>tag := extract_tag_number (address cache_op) c,
                                          is_valid := True,
                                          is_dirty := (access_type cache_op = CHR ''s''),
                                          lru_order := 0\<rparr>
                    \<and> (\<forall>j<n. j \<noteq> v \<longrightarrow>
                           tag (ls' ! j) = tag (ls ! j)
                           \<and> is_valid (ls' ! j) = is_valid (ls ! j)
                           \<and> is_dirty (ls' ! j) = is_dirty (ls ! j)))"
    by blast
  have e: "case initialize_cache 2 1 512 30 2 of
         None \<Rightarrow> False
       | Some c0 \<Rightarrow>
          (case replay c0 [store_op 0x000, store_op 0x200, load_op 0x000] of
             Inl e \<Rightarrow> False
           | Inr (hs, c) \<Rightarrow>
              associativity c = 2
              \<and> extract_set_index (address (store_op 0x400)) c = 0
              \<and> map is_valid (lines (sets c ! 0)) = [True, True]
              \<and> map lru_order (lines (sets c ! 0)) = [0, 1]
              \<and> find_lru_line_index c 0 = 1
              \<and> (case access_cache c (store_op 0x400) of
                    Inl e \<Rightarrow> False
                  | Inr (h, c') \<Rightarrow> \<not> h \<and> map tag (lines (sets c' ! 0)) = [0, 2]))"
    by code_simp
  from e c0 c obtain c' where
    f: "associativity c = 2" "extract_set_index (address (store_op 0x400)) c = 0"
       "map is_valid (lines (sets c ! 0)) = [True, True]"
       "map lru_order (lines (sets c ! 0)) = [0, 1]"
       "find_lru_line_index c 0 = 1"
    and m: "access_cache c (store_op 0x400) = Inr (False, c')"
    and t: "map tag (lines (sets c' ! 0)) = [0, 2]"
    by (auto split: sum.splits prod.splits)
  have av: "\<forall>j<2. is_valid (lines (sets c ! 0) ! j)"
  proof (intro allI impI)
    fix j :: nat assume "j < 2"
    then have "j < length (map is_valid (lines (sets c ! 0)))" using f(3) by simp
    then have "is_valid (lines (sets c ! 0) ! j) = map is_valid (lines (sets c ! 0)) ! j"
      by (simp del: f(3))
    also have "\<dots>" using \<open>j < 2\<close> unfolding f(3) by (cases j) auto
    finally show "is_valid (lines (sets c ! 0) ! j)" .
  qed
  from P [OF m] av have le: "\<forall>j<2. lru_order (lines (sets c ! 0) ! j)
                    \<le> lru_order (lines (sets c ! 0) ! find_lru_line_index c 0)"
    unfolding Let_def f(1,2) by simp
  show ?thesis
    apply (rule conjI [OF v])
    apply (rule exI [of _ c0], rule exI [of _ hs], rule exI [of _ c], rule exI [of _ c'])
    apply (intro conjI c0 c m f(3,4,5) le t)
    done
qed

section \<open>A hit is repeated\<close>

lemma extract_hit_update [simp]:
  "extract_set_index a (hit_update c opn si li) = extract_set_index a c"
  "extract_tag_number a (hit_update c opn si li) = extract_tag_number a c"
  by (simp_all add: extract_set_index_def extract_tag_number_def)

lemma access_cache_hit_result:
  assumes "access_cache c opn = Inr (True, c')"
  obtains j where "int j < associativity c"
    "is_valid (lines (sets c ! nat (extract_set_index (address opn) c)) ! j)"
    "tag (lines (sets c ! nat (extract_set_index (address opn) c)) ! j)
     = extract_tag_number (address opn) c"
    "\<forall>j'<j. \<not> (is_valid (lines (sets c ! nat (extract_set_index (address opn) c)) ! j')
              \<and> tag (lines (sets c ! nat (extract_set_index (address opn) c)) ! j')
                = extract_tag_number (address opn) c)"
    "c' = hit_update c opn (nat (extract_set_index (address opn) c)) j"
proof -
  let ?si = "nat (extract_set_index (address opn) c)"
  let ?t = "extract_tag_number (address opn) c"
  have r: "is_cache_hit c opn ?si ?t = (True, c')"
    using assms by (auto simp: access_cache_def Let_def split: if_splits intro: prod_eqI)
  show ?thesis
  proof (cases rule: is_cache_hit_cases [of c ?si ?t opn])
    case miss
    then show ?thesis using r by simp
  next
    case (hit j)
    then show ?thesis using r that [of j] by simp
  qed
qed

text \<open>
  C7. In every cache state (reachable or not), if an access is a hit then an access to
  the same address right after it, of either kind, is a hit too, and it changes neither
  \<open>misses\<close> nor \<open>dirty_write_backs\<close>.
\<close>

theorem hit_then_hit:
  assumes "access_cache cache op1 = Inr (True, cache1)"
    and "address op2 = address op1"
  shows "\<exists>cache2. access_cache cache1 op2 = Inr (True, cache2)
           \<and> misses (stats cache2) = misses (stats cache1)
           \<and> dirty_write_backs (stats cache2) = dirty_write_backs (stats cache1)"
proof -
  let ?si = "nat (extract_set_index (address op1) cache)"
  let ?t = "extract_tag_number (address op1) cache"
  from access_cache_hit_result [OF assms(1)] obtain j where
    j: "int j < associativity cache" "is_valid (lines (sets cache ! ?si) ! j)"
       "tag (lines (sets cache ! ?si) ! j) = ?t"
    and c1: "cache1 = hit_update cache op1 ?si j"
    by blast
  have si: "?si < length (sets cache)" by (rule access_cache_guard(1) [OF assms(1)])
  have len: "nat (associativity cache) \<le> length (lines (sets cache ! ?si))"
    by (rule access_cache_guard(2) [OF assms(1)])
  have jl: "j < length (lines (sets cache ! ?si))" using j(1) len by simp
  have guard: "\<not> num_sets cache < extract_set_index (address op1) cache"
    "0 \<le> extract_set_index (address op1) cache"
    "extract_set_index (address op1) cache < int (length (sets cache))"
    using assms(1) by (auto simp: access_cache_def Let_def split: if_splits)
  have pos: "\<not> associativity cache \<le> 0" using j(1) by simp
  have still: "is_valid (lines (sets cache1 ! ?si) ! j)" "tag (lines (sets cache1 ! ?si) ! j) = ?t"
    unfolding c1 using j(2,3) by (simp_all add: nth_lines_hit_update [OF si jl])
  show ?thesis
  proof (cases rule: is_cache_hit_cases [of cache1 ?si ?t op2])
    case miss
    have "int j < associativity cache1" using j(1) by (simp add: c1)
    with miss(1) still show ?thesis by blast
  next
    case (hit j')
    have "access_cache cache1 op2 = Inr (True, hit_update cache1 op2 ?si j')"
      using guard si len hit(5) pos
      by (simp add: access_cache_def Let_def assms(2) c1)
    then show ?thesis by simp
  qed
qed

theorem hit_then_hit_witness:
  "access_cache dm_cache1 (store_op 0x200) = Inr (True, dm_cache2)
   \<and> address (load_op 0x200) = address (store_op 0x200)
   \<and> (\<exists>cache2. access_cache dm_cache2 (load_op 0x200) = Inr (True, cache2)
           \<and> misses (stats cache2) = misses (stats dm_cache2)
           \<and> dirty_write_backs (stats cache2) = dirty_write_backs (stats dm_cache2))"
proof -
  have h: "access_cache dm_cache1 (store_op 0x200) = Inr (True, dm_cache2)" by code_simp
  have a: "address (load_op 0x200) = address (store_op 0x200)" by (simp add: load_op_def store_op_def)
  show ?thesis using hit_then_hit [OF h a] h a by blast
qed

section \<open>Dirty write-backs\<close>

lemma replay_snoc:
  "replay c0 (ops @ [opn]) =
     (case replay c0 ops of
        Inl e \<Rightarrow> Inl e
      | Inr (hs, c) \<Rightarrow>
          (case access_cache c opn of
             Inl e \<Rightarrow> Inl e
           | Inr (h, c') \<Rightarrow> Inr (hs @ [h], c')))"
  by (induction ops arbitrary: c0) (auto split: sum.splits prod.splits)

lemma int32_succ_neq: "int32 (x + 1) \<noteq> x"
proof
  assume a: "int32 (x + 1) = x"
  let ?y = "x + 2147483648"
  have "(?y + 1) mod 4294967296 = ?y" using a by (simp add: int32_def algebra_simps)
  moreover have "0 \<le> (?y + 1) mod 4294967296" "(?y + 1) mod 4294967296 < 4294967296" by simp_all
  ultimately have r: "0 \<le> ?y" "?y < 4294967296" by linarith+
  show False
  proof (cases "?y + 1 < 4294967296")
    case True
    then have "(?y + 1) mod 4294967296 = ?y + 1" using r by (intro mod_pos_pos_trivial) auto
    with \<open>(?y + 1) mod 4294967296 = ?y\<close> show False by simp
  next
    case False
    then have "?y + 1 = 4294967296" using r by linarith
    then have "(?y + 1) mod 4294967296 = 0" by simp
    with \<open>(?y + 1) mod 4294967296 = ?y\<close> \<open>?y + 1 = 4294967296\<close> show False by simp
  qed
qed

lemma replay_cache_ok:
  assumes "cache_ok c0" "replay c0 ops = Inr (hs, c)"
  shows "cache_ok c"
  using replay_ok [OF assms(1), of ops] assms(2) by auto

subsection \<open>The last fill of a line\<close>

lemma state_before_snoc:
  "m \<le> length ops \<Longrightarrow> state_before c0 (ops @ [opn]) m = state_before c0 ops m"
  by (simp add: state_before_def)

lemma state_before_length:
  "replay c0 ops = Inr (hs, c) \<Longrightarrow> state_before c0 ops (length ops) = c"
  by (simp add: state_before_def)

lemma last_fill_snoc:
  assumes "replay c0 ops = Inr (hs, c)"
  shows "last_fill c0 (ops @ [opn]) si li
         = (if fills_line c opn si li then Some (length ops) else last_fill c0 ops si li)"
proof -
  let ?n = "length ops"
  let ?P = "\<lambda>os m. fills_line (state_before c0 os m) (os ! m) si li"
  have sb: "state_before c0 (ops @ [opn]) ?n = c"
    using state_before_snoc [of ?n ops c0 opn] state_before_length [OF assms] by simp
  have early: "?P (ops @ [opn]) m = ?P ops m" if "m \<in> set (rev [0..<?n])" for m
    using that by (simp add: state_before_snoc nth_append)
  have "find (?P (ops @ [opn])) (rev [0..<?n]) = find (?P ops) (rev [0..<?n])"
    by (rule find_cong) (use early in auto)
  then show ?thesis
    by (simp add: last_fill_def sb)
qed

lemma find_Some_mem: "find P xs = Some x \<Longrightarrow> x \<in> set xs"
  by (induction xs) (auto split: if_splits)

lemma last_fill_less: "last_fill c0 ops si li = Some m \<Longrightarrow> m < length ops"
  using find_Some_mem [of _ "rev [0..<length ops]" m] by (auto simp: last_fill_def)

lemma stored_while_resident_snoc:
  assumes "replay c0 ops = Inr (hs, c)"
  shows "stored_while_resident c0 (ops @ [opn]) si li
         = (if fills_line c opn si li then access_type opn = CHR ''s''
            else (case last_fill c0 ops si li of
                    None \<Rightarrow> False
                  | Some m \<Rightarrow>
                      stored_while_resident c0 ops si li
                      \<or> (access_type opn = CHR ''s''
                          \<and> block_of c0 (address opn) = block_of c0 (address (ops ! m)))))"
proof (cases "fills_line c opn si li")
  case True
  then show ?thesis
    by (simp add: stored_while_resident_def last_fill_snoc [OF assms])
next
  case False
  show ?thesis
  proof (cases "last_fill c0 ops si li")
    case None
    then show ?thesis
      using False by (simp add: stored_while_resident_def last_fill_snoc [OF assms])
  next
    case (Some m)
    have m: "m < length ops" by (rule last_fill_less [OF Some])
    have s: "set [m..<Suc (length ops)] = insert (length ops) (set [m..<length ops])"
      using m by auto
    have e: "\<And>k. k \<in> set [m..<length ops] \<Longrightarrow> (ops @ [opn]) ! k = ops ! k"
      by (simp add: nth_append)
    have em: "(ops @ [opn]) ! m = ops ! m" using m by (simp add: nth_append)
    show ?thesis
      using False Some
      by (auto simp: stored_while_resident_def last_fill_snoc [OF assms] s e em
               simp del: upt_Suc set_upt)
  qed
qed

subsection \<open>Blocks and decoded addresses\<close>

lemma cache_ok_shift:
  assumes "cache_ok c"
  shows "nat (int32 (log_line_size c + log_num_sets c))
         = nat (log_num_sets c) + nat (log_line_size c)"
    and "nat (log_num_sets c) \<le> 30"
proof -
  have r: "0 \<le> log_line_size c" "0 \<le> log_num_sets c" "log_line_size c + log_num_sets c \<le> 30"
    using assms by (auto simp: cache_ok_def)
  then have "int32 (log_line_size c + log_num_sets c) = log_line_size c + log_num_sets c"
    by (intro int32_id) auto
  with r show "nat (int32 (log_line_size c + log_num_sets c))
         = nat (log_num_sets c) + nat (log_line_size c)" by simp
  show "nat (log_num_sets c) \<le> 30" using r by simp
qed

lemma tag_of_block:
  assumes "cache_ok c"
  shows "extract_tag_number a c = int32 (uint (drop_bit (nat (log_num_sets c)) (block_of c a)))"
  by (simp add: extract_tag_number_def block_of_def cache_ok_shift(1) [OF assms])

lemma set_index_of_block:
  assumes "cache_ok c"
  shows "extract_set_index a c
         = (if num_sets c = 1 then 0
            else uint (take_bit (nat (log_num_sets c)) (block_of c a)))"
proof -
  let ?n = "nat (log_num_sets c)"
  have m: "(word_of_int (2 ^ ?n - 1) :: 64 word) = mask ?n"
    by (simp add: mask_eq_exp_minus_1)
  have "int32 (uint (drop_bit (nat (log_line_size c)) a
                      AND word_of_int (int32 (int32 (2 ^ ?n) - 1))))
        = uint (drop_bit (nat (log_line_size c)) a AND mask ?n)"
    using set_index_mask(1) [OF cache_ok_shift(2) [OF assms], of "drop_bit (nat (log_line_size c)) a"]
    unfolding m .
  then show ?thesis
    by (simp add: extract_set_index_def block_of_def take_bit_eq_mask)
qed

lemma block_decides_decode:
  assumes "cache_ok c" "block_of c a = block_of c b"
  shows "extract_set_index a c = extract_set_index b c"
    and "extract_tag_number a c = extract_tag_number b c"
  using assms by (simp_all add: tag_of_block set_index_of_block)

lemma one_set_no_index_bits:
  assumes "cache_ok c" "num_sets c = 1"
  shows "nat (log_num_sets c) = 0"
proof -
  have "(2::int) ^ nat (log_num_sets c) = 1" using assms by (simp add: cache_ok_def)
  then show ?thesis
  proof (cases "nat (log_num_sets c)")
    case 0 then show ?thesis by simp
  next
    case (Suc k)
    have "(1::int) \<le> 2 ^ k" by simp
    then have "(2::int) \<le> 2 ^ Suc k" by simp
    with \<open>(2::int) ^ nat (log_num_sets c) = 1\<close> Suc show ?thesis by simp
  qed
qed

lemma decode_decides_block:
  assumes ok: "cache_ok c"
    and ba: "uint a < 2 ^ nat (31 + log_line_size c + log_num_sets c)"
    and bb: "uint b < 2 ^ nat (31 + log_line_size c + log_num_sets c)"
    and si: "extract_set_index a c = extract_set_index b c"
    and tg: "extract_tag_number a c = extract_tag_number b c"
  shows "block_of c a = block_of c b"
proof -
  let ?l = "nat (log_line_size c)"
  let ?n = "nat (log_num_sets c)"
  have r: "0 \<le> log_line_size c" "0 \<le> log_num_sets c"
    using ok by (auto simp: cache_ok_def)
  have e: "nat (31 + log_line_size c + log_num_sets c) = 31 + (?n + ?l)" using r by simp
  have exact: "int32 (uint (drop_bit ?n (block_of c x))) = uint (drop_bit ?n (block_of c x))"
    if "uint x < 2 ^ nat (31 + log_line_size c + log_num_sets c)" for x
  proof -
    have "uint (drop_bit ?n (block_of c x)) = uint x div 2 ^ (?n + ?l)"
      by (simp add: block_of_def uint_drop_bit_div)
    also have "\<dots> < 2 ^ 31"
      using that unfolding e by (intro int_div_less) (simp_all add: power_add mult.assoc)
    finally have "uint (drop_bit ?n (block_of c x)) < 2147483648" by simp
    moreover have "0 \<le> uint (drop_bit ?n (block_of c x))" by simp
    ultimately show ?thesis by (intro int32_id) linarith+
  qed
  have "uint (drop_bit ?n (block_of c a)) = uint (drop_bit ?n (block_of c b))"
    using tg exact [OF ba] exact [OF bb] by (simp add: tag_of_block [OF ok])
  then have hi: "drop_bit ?n (block_of c a) = drop_bit ?n (block_of c b)"
    by (rule word_uint_eqI)
  have lo: "take_bit ?n (block_of c a) = take_bit ?n (block_of c b)"
  proof (cases "num_sets c = 1")
    case True
    then show ?thesis by (simp add: one_set_no_index_bits [OF ok])
  next
    case False
    then have "uint (take_bit ?n (block_of c a)) = uint (take_bit ?n (block_of c b))"
      using si by (simp add: set_index_of_block [OF ok])
    then show ?thesis by (rule word_uint_eqI)
  qed
  have "block_of c a = push_bit ?n (drop_bit ?n (block_of c a)) + take_bit ?n (block_of c a)"
    by (simp add: bits_ident)
  also have "\<dots> = push_bit ?n (drop_bit ?n (block_of c b)) + take_bit ?n (block_of c b)"
    by (simp only: hi lo)
  also have "\<dots> = block_of c b" by (simp add: bits_ident)
  finally show ?thesis .
qed

lemma replay_geometry:
  "replay c0 ops = Inr (hs, c) \<Longrightarrow>
     associativity c = associativity c0 \<and> num_sets c = num_sets c0
     \<and> log_line_size c = log_line_size c0 \<and> log_num_sets c = log_num_sets c0
     \<and> length (sets c) = length (sets c0)"
proof (induction ops arbitrary: c0 hs)
  case Nil
  then show ?case by simp
next
  case (Cons opn ops)
  from Cons.prems obtain h c1 hs1 where
    a: "access_cache c0 opn = Inr (h, c1)" and r: "replay c1 ops = Inr (hs1, c)"
    by (auto split: sum.splits prod.splits)
  from frame_access_cache [OF a] Cons.IH [OF r] show ?case
    by (simp add: frame_def)
qed

lemma same_geometry_decode:
  assumes "num_sets c = num_sets c0" "log_line_size c = log_line_size c0"
    "log_num_sets c = log_num_sets c0"
  shows "extract_set_index a c = extract_set_index a c0"
    "extract_tag_number a c = extract_tag_number a c0"
    "block_of c a = block_of c0 a"
  using assms by (simp_all add: extract_set_index_def extract_tag_number_def block_of_def)

subsection \<open>The history of a line under an access\<close>

lemma fills_line_result:
  "access_cache c opn = Inr (h, c') \<Longrightarrow>
   fills_line c opn si li
   = (\<not> h \<and> si = nat (extract_set_index (address opn) c)
      \<and> li = find_lru_line_index c (nat (extract_set_index (address opn) c)))"
  by (auto simp: fills_line_def)

lemma access_line_effect:
  assumes ok: "cache_ok c" and td: "tags_distinct c"
    and acc: "access_cache c opn = Inr (h, c')"
    and si: "si < length (sets c)" and li: "li < nat (associativity c)"
  defines "L \<equiv> lines (sets c ! si) ! li" and "L' \<equiv> lines (sets c' ! si) ! li"
    and "M \<equiv> (si = nat (extract_set_index (address opn) c) \<and> is_valid (lines (sets c ! si) ! li)
              \<and> tag (lines (sets c ! si) ! li) = extract_tag_number (address opn) c)"
  shows "is_valid L' = (is_valid L \<or> fills_line c opn si li)"
    and "tag L' = (if fills_line c opn si li then extract_tag_number (address opn) c else tag L)"
    and "is_dirty L' = (if fills_line c opn si li then access_type opn = CHR ''s''
                        else (is_dirty L \<or> (access_type opn = CHR ''s'' \<and> M)))"
    and "fills_line c opn si li \<Longrightarrow> lj < nat (associativity c) \<Longrightarrow>
           \<not> (is_valid (lines (sets c ! si) ! lj)
              \<and> tag (lines (sets c ! si) ! lj) = extract_tag_number (address opn) c)"
proof -
  let ?s0 = "nat (extract_set_index (address opn) c)"
  let ?t = "extract_tag_number (address opn) c"
  have s0: "?s0 < length (sets c)" by (rule access_cache_guard(1) [OF acc])
  have len: "length (lines (sets c ! ?s0)) = nat (associativity c)"
    by (rule cache_ok_set(1) [OF ok s0])
  note F = fills_line_result [OF acc, of si li]
  have all: "(is_valid L' = (is_valid L \<or> fills_line c opn si li))
    \<and> (tag L' = (if fills_line c opn si li then ?t else tag L))
    \<and> (is_dirty L' = (if fills_line c opn si li then access_type opn = CHR ''s''
                        else (is_dirty L \<or> (access_type opn = CHR ''s'' \<and> M))))
    \<and> (fills_line c opn si li \<longrightarrow> lj < nat (associativity c) \<longrightarrow>
           \<not> (is_valid (lines (sets c ! si) ! lj) \<and> tag (lines (sets c ! si) ! lj) = ?t))"
  proof (cases h)
    case True
    have acc': "access_cache c opn = Inr (True, c')" using acc True by simp
    from access_cache_hit_result [OF acc'] obtain j where
      j: "int j < associativity c" "is_valid (lines (sets c ! ?s0) ! j)"
         "tag (lines (sets c ! ?s0) ! j) = ?t"
      and c': "c' = hit_update c opn ?s0 j"
      by blast
    have nf: "\<not> fills_line c opn si li" using F True by simp
    have jw: "j < nat (associativity c)" using j(1) by simp
    have Mj: "M = (si = ?s0 \<and> li = j)"
    proof
      assume M
      then have s: "si = ?s0" and v: "is_valid (lines (sets c ! ?s0) ! li)"
        and t: "tag (lines (sets c ! ?s0) ! li) = ?t"
        by (auto simp: M_def)
      from td s0 li jw v j(2) t j(3) have "li = j"
        unfolding tags_distinct_def by (metis)
      with s show "si = ?s0 \<and> li = j" by simp
    next
      assume "si = ?s0 \<and> li = j"
      then show M using j by (simp add: M_def)
    qed
    show ?thesis
    proof (cases "si = ?s0")
      case s: True
      have "li < length (lines (sets c ! ?s0))" using li len by simp
      from nth_lines_hit_update [OF s0 this, of opn j]
      show ?thesis unfolding L_def L'_def c' Mj using s nf by auto
    next
      case s: False
      then show ?thesis unfolding L_def L'_def c' Mj using nf by simp
    qed
  next
    case False
    let ?v = "find_lru_line_index c ?s0"
    have acc': "access_cache c opn = Inr (False, c')" using acc False by simp
    have c': "c' = handle_cache_miss c opn ?s0 ?t"
      by (rule access_cache_miss_result [OF acc'])
    have r: "is_cache_hit c opn ?s0 ?t = (False, c) \<or> \<not> fst (is_cache_hit c opn ?s0 ?t)"
      using acc' by (auto simp: access_cache_def Let_def split: if_splits)
    have nomatch: "\<not> (is_valid (lines (sets c ! ?s0) ! j) \<and> tag (lines (sets c ! ?s0) ! j) = ?t)"
      if "j < nat (associativity c)" for j
    proof (cases rule: is_cache_hit_cases [of c ?s0 ?t opn])
      case miss
      then show ?thesis using that by auto
    next
      case (hit j')
      then show ?thesis using r by simp
    qed
    have nM: "\<not> M" using nomatch [OF li] by (auto simp: M_def)
    have Fv: "fills_line c opn si li = (si = ?s0 \<and> li = ?v)" using F False by simp
    have v: "?v < length (lines (sets c ! ?s0))"
      using cache_ok_victim(1) [OF ok s0] len by simp
    show ?thesis
    proof (cases "si = ?s0")
      case s: True
      have "li < length (lines (sets c ! ?s0))" using li len by simp
      from nth_lines_handle_cache_miss [OF s0 this v, of opn ?t]
      show ?thesis unfolding L_def L'_def c' Fv using s nM nomatch by auto
    next
      case s: False
      then show ?thesis unfolding L_def L'_def c' Fv using nM by simp
    qed
  qed
  show "is_valid L' = (is_valid L \<or> fills_line c opn si li)"
    and "tag L' = (if fills_line c opn si li then extract_tag_number (address opn) c else tag L)"
    and "is_dirty L' = (if fills_line c opn si li then access_type opn = CHR ''s''
                        else (is_dirty L \<or> (access_type opn = CHR ''s'' \<and> M)))"
    and "fills_line c opn si li \<Longrightarrow> lj < nat (associativity c) \<Longrightarrow>
           \<not> (is_valid (lines (sets c ! si) ! lj)
              \<and> tag (lines (sets c ! si) ! lj) = extract_tag_number (address opn) c)"
    using all by blast+
qed

lemma tags_distinct_step:
  assumes ok: "cache_ok c" and td: "tags_distinct c"
    and acc: "access_cache c opn = Inr (h, c')"
  shows "tags_distinct c'"
proof -
  have fr: "length (sets c') = length (sets c)" "associativity c' = associativity c"
    using frame_access_cache [OF acc] by (simp_all add: frame_def)
  show ?thesis
    unfolding tags_distinct_def fr
  proof (intro allI impI)
    fix si li lj
    assume si: "si < length (sets c)" and li: "li < nat (associativity c)"
      and lj: "lj < nat (associativity c)"
      and h: "is_valid (lines (sets c' ! si) ! li) \<and> is_valid (lines (sets c' ! si) ! lj)
              \<and> tag (lines (sets c' ! si) ! li) = tag (lines (sets c' ! si) ! lj)"
    note ei = access_line_effect [OF ok td acc si li]
    note ej = access_line_effect [OF ok td acc si lj]
    show "li = lj"
    proof (cases "fills_line c opn si li")
      case Fi: True
      show ?thesis
      proof (cases "fills_line c opn si lj")
        case True
        with Fi show ?thesis using fills_line_result [OF acc] by simp
      next
        case False
        with Fi h ei(2) ej(1,2) ei(4) [OF Fi lj] show ?thesis by simp
      qed
    next
      case Fi: False
      show ?thesis
      proof (cases "fills_line c opn si lj")
        case True
        with Fi h ei(1,2) ej(2) ej(4) [OF True li] show ?thesis by simp
      next
        case False
        with Fi h ei(1,2) ej(1,2) td si li lj show ?thesis
          unfolding tags_distinct_def by simp
      qed
    qed
  qed
qed

lemma history_step:
  assumes ok0: "cache_ok c0" and r: "replay c0 ops = Inr (hs, c)"
    and td: "tags_distinct c" and hist: "history_ok c0 ops c"
    and acc: "access_cache c opn = Inr (h, c')"
    and bnd: "\<forall>q\<in>set (ops @ [opn]).
                uint (address q) < 2 ^ nat (31 + log_line_size c0 + log_num_sets c0)"
  shows "history_ok c0 (ops @ [opn]) c'"
proof -
  have ok: "cache_ok c" by (rule replay_cache_ok [OF ok0 r])
  note g = replay_geometry [OF r]
  have dec: "\<And>a. extract_set_index a c = extract_set_index a c0"
    "\<And>a. extract_tag_number a c = extract_tag_number a c0"
    using g same_geometry_decode [of c c0] by simp_all
  have fr: "length (sets c') = length (sets c)" "associativity c' = associativity c"
    using frame_access_cache [OF acc] by (simp_all add: frame_def)
  have idx: "0 \<le> extract_set_index (address opn) c"
    using extract_set_index_range [OF ok] by simp
  show ?thesis
    unfolding history_ok_def fr
  proof (intro allI impI)
    fix si li
    assume si: "si < length (sets c)" and li: "li < nat (associativity c)"
    let ?L = "lines (sets c ! si) ! li"
    let ?L' = "lines (sets c' ! si) ! li"
    let ?F = "fills_line c opn si li"
    let ?st = "access_type opn = CHR ''s''"
    note e = access_line_effect [OF ok td acc si li]
    from hist si li have
      H1: "is_valid ?L = (last_fill c0 ops si li \<noteq> None)"
      and H2: "\<And>m. last_fill c0 ops si li = Some m \<Longrightarrow>
                tag ?L = extract_tag_number (address (ops ! m)) c0
                \<and> extract_set_index (address (ops ! m)) c0 = int si"
      and H3: "is_dirty ?L = stored_while_resident c0 ops si li"
      unfolding history_ok_def by blast+
    note lf = last_fill_snoc [OF r, of opn si li]
    note sw = stored_while_resident_snoc [OF r, of opn si li]
    show "(is_valid ?L' = (last_fill c0 (ops @ [opn]) si li \<noteq> None))
         \<and> (\<forall>m. last_fill c0 (ops @ [opn]) si li = Some m \<longrightarrow>
                tag ?L' = extract_tag_number (address ((ops @ [opn]) ! m)) c0
                \<and> extract_set_index (address ((ops @ [opn]) ! m)) c0 = int si)
         \<and> is_dirty ?L' = stored_while_resident c0 (ops @ [opn]) si li"
    proof (cases ?F)
      case True
      have s: "si = nat (extract_set_index (address opn) c)"
        using True fills_line_result [OF acc] by simp
      have ix: "extract_set_index (address opn) c0 = int si"
        using s idx dec(1) [of "address opn"] by simp
      have lf': "last_fill c0 (ops @ [opn]) si li = Some (length ops)"
        using lf True by simp
      have sw': "stored_while_resident c0 (ops @ [opn]) si li = ?st"
        using sw True by simp
      have v': "is_valid ?L'" using e(1) True by simp
      have t': "tag ?L' = extract_tag_number (address opn) c0"
        using e(2) True dec(2) [of "address opn"] by simp
      have d': "is_dirty ?L' = ?st" using e(3) True by simp
      show ?thesis
        unfolding lf' sw' using v' t' d' ix by simp
    next
      case False
      have lf': "last_fill c0 (ops @ [opn]) si li = last_fill c0 ops si li"
        using lf False by simp
      have v': "is_valid ?L' = is_valid ?L" using e(1) False by simp
      have t': "tag ?L' = tag ?L" using e(2) False by simp
      show ?thesis
      proof (cases "last_fill c0 ops si li")
        case None
        have nv: "\<not> is_valid ?L" using H1 None by simp
        have nd: "\<not> is_dirty ?L" using H3 None by (simp add: stored_while_resident_def)
        have d': "\<not> is_dirty ?L'" using e(3) False nv nd by simp
        have sw': "\<not> stored_while_resident c0 (ops @ [opn]) si li"
          using sw False None by simp
        show ?thesis
          unfolding lf' None using v' nv d' sw' by simp
      next
        case (Some m)
        have m: "m < length ops" by (rule last_fill_less [OF Some])
        have v: "is_valid ?L" using H1 Some by simp
        from H2 [OF Some] have tg: "tag ?L = extract_tag_number (address (ops ! m)) c0"
          and ix: "extract_set_index (address (ops ! m)) c0 = int si" by simp_all
        have nm: "(ops @ [opn]) ! m = ops ! m" using m by (simp add: nth_append)
        have bo: "uint (address opn) < 2 ^ nat (31 + log_line_size c0 + log_num_sets c0)"
          using bnd by simp
        have "ops ! m \<in> set ops" using m by (rule nth_mem)
        then have bm: "uint (address (ops ! m))
                       < 2 ^ nat (31 + log_line_size c0 + log_num_sets c0)"
          using bnd by simp
        let ?B = "block_of c0 (address opn) = block_of c0 (address (ops ! m))"
        have Mb: "(si = nat (extract_set_index (address opn) c) \<and> is_valid ?L
                   \<and> tag ?L = extract_tag_number (address opn) c) = ?B"
        proof
          assume M: "si = nat (extract_set_index (address opn) c) \<and> is_valid ?L
                   \<and> tag ?L = extract_tag_number (address opn) c"
          from M have Ms: "si = nat (extract_set_index (address opn) c)"
            and Mt: "tag ?L = extract_tag_number (address opn) c" by blast+
          have "extract_set_index (address opn) c0 = int si"
            using Ms idx dec(1) [of "address opn"] by simp
          then have a: "extract_set_index (address opn) c0
                        = extract_set_index (address (ops ! m)) c0"
            using ix by simp
          have "extract_tag_number (address opn) c0 = tag ?L"
            using Mt dec(2) [of "address opn"] by simp
          then have b: "extract_tag_number (address opn) c0
                        = extract_tag_number (address (ops ! m)) c0"
            using tg by simp
          show ?B by (rule decode_decides_block [OF ok0 bo bm a b])
        next
          assume b: ?B
          note d = block_decides_decode [OF ok0 b]
          have "extract_set_index (address opn) c = int si"
            using d(1) ix dec(1) [of "address opn"] by simp
          then have "si = nat (extract_set_index (address opn) c)" by simp
          moreover have "tag ?L = extract_tag_number (address opn) c"
            using d(2) tg dec(2) [of "address opn"] by simp
          ultimately show "si = nat (extract_set_index (address opn) c) \<and> is_valid ?L
                   \<and> tag ?L = extract_tag_number (address opn) c"
            using v by simp
        qed
        have d': "is_dirty ?L' = (stored_while_resident c0 ops si li \<or> (?st \<and> ?B))"
          using e(3) False H3 Mb by simp
        have sw': "stored_while_resident c0 (ops @ [opn]) si li
                   = (stored_while_resident c0 ops si li \<or> (?st \<and> ?B))"
          using sw False Some by simp
        have all_m: "\<forall>m'. Some m = Some m' \<longrightarrow>
                tag ?L' = extract_tag_number (address ((ops @ [opn]) ! m')) c0
                \<and> extract_set_index (address ((ops @ [opn]) ! m')) c0 = int si"
          using t' tg ix nm by simp
        show ?thesis
          unfolding lf' Some d' sw' using v' v all_m by simp
      qed
    qed
  qed
qed

lemma history_replay:
  assumes ok0: "cache_ok c0" and td0: "tags_distinct c0" and h0: "history_ok c0 [] c0"
  shows "replay c0 ops = Inr (hs, c)
         \<Longrightarrow> (\<forall>q\<in>set ops. uint (address q) < 2 ^ nat (31 + log_line_size c0 + log_num_sets c0))
         \<Longrightarrow> tags_distinct c \<and> history_ok c0 ops c"
proof (induction ops arbitrary: hs c rule: rev_induct)
  case Nil
  then show ?case using td0 h0 by simp
next
  case (snoc opn ops)
  from snoc.prems(1) obtain hs1 c1 h where
    r1: "replay c0 ops = Inr (hs1, c1)" and acc: "access_cache c1 opn = Inr (h, c)"
    by (auto simp: replay_snoc split: sum.splits prod.splits)
  have b1: "\<forall>q\<in>set ops. uint (address q) < 2 ^ nat (31 + log_line_size c0 + log_num_sets c0)"
    using snoc.prems(2) by simp
  from snoc.IH [OF r1 b1] have td1: "tags_distinct c1" and h1: "history_ok c0 ops c1" by simp_all
  have ok1: "cache_ok c1" by (rule replay_cache_ok [OF ok0 r1])
  show ?case
    using tags_distinct_step [OF ok1 td1 acc]
          history_step [OF ok0 r1 td1 h1 acc snoc.prems(2)] by simp
qed

lemma initial_history:
  assumes c0: "initialize_cache assoc csize lsize miss_pen dirty_pen = Some c0"
    and vg: "valid_geometry assoc lsize csize"
  shows "tags_distinct c0" and "history_ok c0 [] c0"
proof -
  from initialize_cache_valid [OF vg, of miss_pen dirty_pen] c0 obtain w s where
    a: "associativity c0 = 2 ^ w"
    and st: "sets c0 = map (\<lambda>i. \<lparr>lines =
                  map (\<lambda>j. \<lparr>tag = 0, is_valid = False, is_dirty = False, lru_order = int j\<rparr>)
                    [0..<2 ^ w]\<rparr>) [0..<2 ^ s]"
    by auto
  have nat2: "nat (2 ^ w) = 2 ^ w"
    by (metis nat_int of_nat_numeral of_nat_power)
  have cold: "\<not> is_valid (lines (sets c0 ! si) ! li) \<and> \<not> is_dirty (lines (sets c0 ! si) ! li)"
    if "si < length (sets c0)" "li < nat (associativity c0)" for si li
    using that by (simp add: st a nat2)
  show "tags_distinct c0"
    unfolding tags_distinct_def using cold by blast
  have nf: "last_fill c0 [] si li = None" for si li
    by (simp add: last_fill_def)
  show "history_ok c0 [] c0"
    unfolding history_ok_def using cold by (simp add: nf stored_while_resident_def)
qed

text \<open>
  C5 as the specification words it fails, because the tag is an \<^verbatim>\<open>int\<close>. In the cache of
  one kilobyte with one line of 1024 bytes, the load of address 0 fills the line with the
  block 0. The store to \<open>2^42\<close> goes to the block \<open>2^32\<close>, whose tag cut to 32 bits is 0:
  the engine takes it for a hit and marks the line dirty. No store went to the block 0,
  the block resident in the line, yet the load of \<open>0x400\<close> that evicts it moves
  \<open>dirty_write_backs\<close> from 0 to 1.
\<close>

theorem aliased_store_counterexample:
  "valid_geometry 1 1024 1
   \<and> initialize_cache 1 1 1024 30 2 = Some one_line_cache
   \<and> simulate 1 1 1024 30 2 [load_op 0x0, store_op 0x40000000000]
       = Some ([False, True], \<lparr>hits = 1, misses = 1, dirty_write_backs = 0\<rparr>)
   \<and> fills_line one_line_cache (load_op 0x0) 0 0
   \<and> last_fill one_line_cache [load_op 0x0, store_op 0x40000000000] 0 0 = Some 0
   \<and> block_of one_line_cache 0x0 = 0
   \<and> block_of one_line_cache 0x40000000000 = 4294967296
   \<and> \<not> stored_while_resident one_line_cache [load_op 0x0, store_op 0x40000000000] 0 0
   \<and> fills_line
        (state_before one_line_cache [load_op 0x0, store_op 0x40000000000, load_op 0x400] 2)
        (load_op 0x400) 0 0
   \<and> simulate 1 1 1024 30 2 [load_op 0x0, store_op 0x40000000000, load_op 0x400]
       = Some ([False, True, False], \<lparr>hits = 1, misses = 2, dirty_write_backs = 1\<rparr>)"
  by code_simp

text \<open>
  C5 as amended, for traces whose addresses lie below \<open>2^(31 + l + n)\<close>, where
  \<open>line_size = 2^l\<close> and \<open>num_sets = 2^n\<close>, so that no tag is cut. After every such trace
  replayed on a cache built from a validated geometry, a miss counts a dirty write-back
  exactly when the block resident in its victim line was the target of a store while
  resident: if no store went to that block since the line was filled (neither the
  filling miss nor a later access), \<open>dirty_write_backs\<close> stays as it is; if one did,
  \<open>dirty_write_backs\<close> is incremented (the \<^verbatim>\<open>++\<close> of a C \<^verbatim>\<open>int\<close>, never the old value).
\<close>

theorem write_back_iff_stored:
  assumes "valid_geometry assoc lsize csize"
  shows "\<exists>c0 hs c.
           initialize_cache assoc csize lsize miss_pen dirty_pen = Some c0
           \<and> replay c0 ops = Inr (hs, c)
           \<and> ((\<forall>q\<in>set ops. uint (address q)
                               < 2 ^ nat (31 + log_line_size c0 + log_num_sets c0)) \<longrightarrow>
               (\<forall>cache_op c'. access_cache c cache_op = Inr (False, c') \<longrightarrow>
                 dirty_write_backs (stats c')
                 = (if stored_while_resident c0 ops
                         (nat (extract_set_index (address cache_op) c))
                         (find_lru_line_index c (nat (extract_set_index (address cache_op) c)))
                    then int32 (dirty_write_backs (stats c) + 1)
                    else dirty_write_backs (stats c))
                 \<and> int32 (dirty_write_backs (stats c) + 1) \<noteq> dirty_write_backs (stats c)))"
proof -
  from initialize_cache_ok [OF assms, of miss_pen dirty_pen] obtain c0 where
    c0: "initialize_cache assoc csize lsize miss_pen dirty_pen = Some c0"
    and ok0: "cache_ok c0" by blast
  note i = initial_history [OF c0 assms]
  from replay_ok [OF ok0, of ops] obtain hs c
    where c: "replay c0 ops = Inr (hs, c)" and ok: "cache_ok c" by blast
  have main: "dirty_write_backs (stats c')
                 = (if stored_while_resident c0 ops
                         (nat (extract_set_index (address cache_op) c))
                         (find_lru_line_index c (nat (extract_set_index (address cache_op) c)))
                    then int32 (dirty_write_backs (stats c) + 1)
                    else dirty_write_backs (stats c))"
    if bnd: "\<forall>q\<in>set ops. uint (address q) < 2 ^ nat (31 + log_line_size c0 + log_num_sets c0)"
      and acc: "access_cache c cache_op = Inr (False, c')" for cache_op c'
  proof -
    let ?si = "nat (extract_set_index (address cache_op) c)"
    let ?v = "find_lru_line_index c ?si"
    have si: "?si < length (sets c)" by (rule access_cache_guard(1) [OF acc])
    have v: "?v < nat (associativity c)" using cache_ok_victim(1) [OF ok si] by simp
    have c': "c' = handle_cache_miss c cache_op ?si (extract_tag_number (address cache_op) c)"
      by (rule access_cache_miss_result [OF acc])
    from history_replay [OF ok0 i c bnd] have "history_ok c0 ops c" by simp
    with si v have d: "is_dirty (lines (sets c ! ?si) ! ?v) = stored_while_resident c0 ops ?si ?v"
      unfolding history_ok_def by blast
    show ?thesis
      unfolding c' using d by simp
  qed
  show ?thesis
    using c0 c main int32_succ_neq by blast
qed

text \<open>
  Two traces on the two-way cache of one kilobyte, each with a hit. In the first the
  store hits the block of line 0, which the fourth access evicts: one write-back. In the
  second the store hits the block of line 1, and the fourth access evicts line 0, which
  was only loaded: no write-back.
\<close>

theorem write_back_iff_stored_witness:
  "valid_geometry 2 512 1
   \<and> (\<exists>c0 hs c c'.
         initialize_cache 2 1 512 30 2 = Some c0
         \<and> replay c0 [load_op 0x000, store_op 0x000, load_op 0x200] = Inr (hs, c)
         \<and> hs = [False, True, False]
         \<and> (\<forall>q\<in>set [load_op 0x000, store_op 0x000, load_op 0x200].
               uint (address q) < 2 ^ nat (31 + log_line_size c0 + log_num_sets c0))
         \<and> access_cache c (load_op 0x400) = Inr (False, c')
         \<and> find_lru_line_index c (nat (extract_set_index (address (load_op 0x400)) c)) = 0
         \<and> stored_while_resident c0 [load_op 0x000, store_op 0x000, load_op 0x200] 0 0
         \<and> dirty_write_backs (stats c) = 0
         \<and> dirty_write_backs (stats c') = 1)
   \<and> (\<exists>c0 hs c c'.
         initialize_cache 2 1 512 30 2 = Some c0
         \<and> replay c0 [load_op 0x000, load_op 0x200, store_op 0x200] = Inr (hs, c)
         \<and> hs = [False, False, True]
         \<and> (\<forall>q\<in>set [load_op 0x000, load_op 0x200, store_op 0x200].
               uint (address q) < 2 ^ nat (31 + log_line_size c0 + log_num_sets c0))
         \<and> access_cache c (load_op 0x400) = Inr (False, c')
         \<and> find_lru_line_index c (nat (extract_set_index (address (load_op 0x400)) c)) = 0
         \<and> \<not> stored_while_resident c0 [load_op 0x000, load_op 0x200, store_op 0x200] 0 0
         \<and> dirty_write_backs (stats c) = 0
         \<and> dirty_write_backs (stats c') = 0)"
proof -
  have v: "valid_geometry 2 512 1" by code_simp
  have A: "\<exists>c0 hs c c'.
         initialize_cache 2 1 512 30 2 = Some c0
         \<and> replay c0 [load_op 0x000, store_op 0x000, load_op 0x200] = Inr (hs, c)
         \<and> hs = [False, True, False]
         \<and> (\<forall>q\<in>set [load_op 0x000, store_op 0x000, load_op 0x200].
               uint (address q) < 2 ^ nat (31 + log_line_size c0 + log_num_sets c0))
         \<and> access_cache c (load_op 0x400) = Inr (False, c')
         \<and> find_lru_line_index c (nat (extract_set_index (address (load_op 0x400)) c)) = 0
         \<and> stored_while_resident c0 [load_op 0x000, store_op 0x000, load_op 0x200] 0 0
         \<and> dirty_write_backs (stats c) = 0
         \<and> dirty_write_backs (stats c') = 1"
  proof -
    let ?ops = "[load_op 0x000, store_op 0x000, load_op 0x200]"
    let ?nxt = "load_op 0x400"
    from write_back_iff_stored [OF v, where miss_pen = 30 and dirty_pen = 2 and ops = ?ops]
    obtain c0 hs c where
      c0: "initialize_cache 2 1 512 30 2 = Some c0"
      and c: "replay c0 ?ops = Inr (hs, c)"
      and P: "(\<forall>q\<in>set ?ops. uint (address q)
                               < 2 ^ nat (31 + log_line_size c0 + log_num_sets c0)) \<longrightarrow>
               (\<forall>cache_op c'. access_cache c cache_op = Inr (False, c') \<longrightarrow>
                 dirty_write_backs (stats c')
                 = (if stored_while_resident c0 ?ops
                         (nat (extract_set_index (address cache_op) c))
                         (find_lru_line_index c (nat (extract_set_index (address cache_op) c)))
                    then int32 (dirty_write_backs (stats c) + 1)
                    else dirty_write_backs (stats c))
                 \<and> int32 (dirty_write_backs (stats c) + 1) \<noteq> dirty_write_backs (stats c))"
      by blast
    have e: "case initialize_cache 2 1 512 30 2 of
           None \<Rightarrow> False
         | Some c0 \<Rightarrow>
            stored_while_resident c0 ?ops 0 0
            \<and> (\<forall>q\<in>set ?ops. uint (address q)
                               < 2 ^ nat (31 + log_line_size c0 + log_num_sets c0))
            \<and> (case replay c0 ?ops of
                 Inl e \<Rightarrow> False
               | Inr (hs, c) \<Rightarrow>
                  hs = [False, True, False]
                  \<and> nat (extract_set_index (address ?nxt) c) = 0
                  \<and> find_lru_line_index c 0 = 0
                  \<and> dirty_write_backs (stats c) = 0
                  \<and> (case access_cache c ?nxt of
                        Inl e \<Rightarrow> False
                      | Inr (h, c') \<Rightarrow> \<not> h))"
      by code_simp
    from e c0 c obtain c' where
      f: "stored_while_resident c0 ?ops 0 0"
         "nat (extract_set_index (address ?nxt) c) = 0"
         "find_lru_line_index c 0 = 0" "dirty_write_backs (stats c) = 0"
      and b: "\<forall>q\<in>set ?ops. uint (address q)
                               < 2 ^ nat (31 + log_line_size c0 + log_num_sets c0)"
      and h: "hs = [False, True, False]"
      and m: "access_cache c ?nxt = Inr (False, c')"
      by (auto split: sum.splits prod.splits)
    from P b m have Q: "dirty_write_backs (stats c')
                 = (if stored_while_resident c0 ?ops
                         (nat (extract_set_index (address ?nxt) c))
                         (find_lru_line_index c (nat (extract_set_index (address ?nxt) c)))
                    then int32 (dirty_write_backs (stats c) + 1)
                    else dirty_write_backs (stats c))"
      by blast
    have i: "int32 (0 + 1) = 1" by (simp add: int32_def)
    have d: "dirty_write_backs (stats c') = 1"
      using Q f i by simp
    have fv: "find_lru_line_index c (nat (extract_set_index (address ?nxt) c)) = 0"
      using f(2,3) by simp
    show ?thesis
      apply (rule exI [of _ c0], rule exI [of _ hs], rule exI [of _ c], rule exI [of _ c'])
      apply (intro conjI c0 c h b m fv f(1,4) d)
      done
  qed

  have B: "\<exists>c0 hs c c'.
         initialize_cache 2 1 512 30 2 = Some c0
         \<and> replay c0 [load_op 0x000, load_op 0x200, store_op 0x200] = Inr (hs, c)
         \<and> hs = [False, False, True]
         \<and> (\<forall>q\<in>set [load_op 0x000, load_op 0x200, store_op 0x200].
               uint (address q) < 2 ^ nat (31 + log_line_size c0 + log_num_sets c0))
         \<and> access_cache c (load_op 0x400) = Inr (False, c')
         \<and> find_lru_line_index c (nat (extract_set_index (address (load_op 0x400)) c)) = 0
         \<and> \<not> stored_while_resident c0 [load_op 0x000, load_op 0x200, store_op 0x200] 0 0
         \<and> dirty_write_backs (stats c) = 0
         \<and> dirty_write_backs (stats c') = 0"
  proof -
    let ?ops = "[load_op 0x000, load_op 0x200, store_op 0x200]"
    let ?nxt = "load_op 0x400"
    from write_back_iff_stored [OF v, where miss_pen = 30 and dirty_pen = 2 and ops = ?ops]
    obtain c0 hs c where
      c0: "initialize_cache 2 1 512 30 2 = Some c0"
      and c: "replay c0 ?ops = Inr (hs, c)"
      and P: "(\<forall>q\<in>set ?ops. uint (address q)
                               < 2 ^ nat (31 + log_line_size c0 + log_num_sets c0)) \<longrightarrow>
               (\<forall>cache_op c'. access_cache c cache_op = Inr (False, c') \<longrightarrow>
                 dirty_write_backs (stats c')
                 = (if stored_while_resident c0 ?ops
                         (nat (extract_set_index (address cache_op) c))
                         (find_lru_line_index c (nat (extract_set_index (address cache_op) c)))
                    then int32 (dirty_write_backs (stats c) + 1)
                    else dirty_write_backs (stats c))
                 \<and> int32 (dirty_write_backs (stats c) + 1) \<noteq> dirty_write_backs (stats c))"
      by blast
    have e: "case initialize_cache 2 1 512 30 2 of
           None \<Rightarrow> False
         | Some c0 \<Rightarrow>
            \<not> stored_while_resident c0 ?ops 0 0
            \<and> (\<forall>q\<in>set ?ops. uint (address q)
                               < 2 ^ nat (31 + log_line_size c0 + log_num_sets c0))
            \<and> (case replay c0 ?ops of
                 Inl e \<Rightarrow> False
               | Inr (hs, c) \<Rightarrow>
                  hs = [False, False, True]
                  \<and> nat (extract_set_index (address ?nxt) c) = 0
                  \<and> find_lru_line_index c 0 = 0
                  \<and> dirty_write_backs (stats c) = 0
                  \<and> (case access_cache c ?nxt of
                        Inl e \<Rightarrow> False
                      | Inr (h, c') \<Rightarrow> \<not> h))"
      by code_simp
    from e c0 c obtain c' where
      f: "\<not> stored_while_resident c0 ?ops 0 0"
         "nat (extract_set_index (address ?nxt) c) = 0"
         "find_lru_line_index c 0 = 0" "dirty_write_backs (stats c) = 0"
      and b: "\<forall>q\<in>set ?ops. uint (address q)
                               < 2 ^ nat (31 + log_line_size c0 + log_num_sets c0)"
      and h: "hs = [False, False, True]"
      and m: "access_cache c ?nxt = Inr (False, c')"
      by (auto split: sum.splits prod.splits)
    from P b m have Q: "dirty_write_backs (stats c')
                 = (if stored_while_resident c0 ?ops
                         (nat (extract_set_index (address ?nxt) c))
                         (find_lru_line_index c (nat (extract_set_index (address ?nxt) c)))
                    then int32 (dirty_write_backs (stats c) + 1)
                    else dirty_write_backs (stats c))"
      by blast
    have i: "int32 (0 + 1) = 1" by (simp add: int32_def)
    have d: "dirty_write_backs (stats c') = 0"
      using Q f i by simp
    have fv: "find_lru_line_index c (nat (extract_set_index (address ?nxt) c)) = 0"
      using f(2,3) by simp
    show ?thesis
      apply (rule exI [of _ c0], rule exI [of _ hs], rule exI [of _ c], rule exI [of _ c'])
      apply (intro conjI c0 c h b m fv f(1,4) d)
      done
  qed

  show ?thesis using v A B by (intro conjI)
qed

end
